theory Spec2Isabelle
  imports Main
begin

section \<open>Cells\<close>

text \<open>
  The two exceptions a run of the solver can meet: \<open>ConflictError\<close> is the class of the
  source, \<open>IndexError\<close> is what Python raises when the input list is shorter than 81,
  \<open>ValueError\<close> what \<open>list.remove\<close> raises when nothing in the list matches.
\<close>

datatype error = ConflictError | IndexError | ValueError

text \<open>
  A \<open>Cell\<close> object. The field \<open>possib\<close> is the Python set of candidates, kept as the
  list of its elements in iteration order (no duplicates). The field \<open>key\<close> of the source
  only feeds \<open>__hash__\<close> and is left out.
\<close>

record cell =
  r_pos :: nat
  c_pos :: nat
  "value" :: int
  possib :: "int list"

definition Cell :: "nat \<Rightarrow> nat \<Rightarrow> int \<Rightarrow> cell" where
  "Cell r c v =
     \<lparr>r_pos = r, c_pos = c, value = v,
      possib = [x + 1. x \<leftarrow> map int [0..<9], x + 1 \<noteq> v]\<rparr>"

definition is_solved :: "cell \<Rightarrow> bool" where
  "is_solved c = (value c \<noteq> 0)"

text \<open>\<open>Cell.__eq__\<close> against an integer, and against another cell.\<close>

definition eq_int :: "cell \<Rightarrow> int \<Rightarrow> bool" where
  "eq_int c other = (value c = other)"

definition eq_cell :: "cell \<Rightarrow> cell \<Rightarrow> bool" where
  "eq_cell c other = (value c \<noteq> 0 \<and> value c = value other)"

definition set_value :: "cell \<Rightarrow> int \<Rightarrow> bool \<Rightarrow> cell" where
  "set_value c v certainty =
     (if certainty then c\<lparr>value := v, possib := []\<rparr> else c\<lparr>value := v\<rparr>)"

text \<open>
  The body of the \<open>for other_value in group\<close> loop of \<open>reduce_possibilities\<close>: the group
  is the list of the set's elements in iteration order, the flag is \<open>is_reduced\<close>.
  \<open>self.possib.pop()\<close> on a one-element set returns that element.
\<close>

fun reduce_loop :: "cell \<Rightarrow> bool \<Rightarrow> int list \<Rightarrow> error + (cell \<times> bool)" where
  "reduce_loop c is_reduced [] = Inr (c, is_reduced)"
| "reduce_loop c is_reduced (other_value # grp) =
     (if eq_int c other_value then Inl ConflictError
      else
        let c1 = (if other_value \<in> set (possib c)
                  then c\<lparr>possib := removeAll other_value (possib c)\<rparr> else c);
            red1 = (if other_value \<in> set (possib c) then True else is_reduced)
        in if length (possib c1) = 1
           then Inr (set_value (c1\<lparr>possib := tl (possib c1)\<rparr>) (hd (possib c1)) True, red1)
           else reduce_loop c1 red1 grp)"

definition reduce_possibilities :: "cell \<Rightarrow> int list \<Rightarrow> error + (cell \<times> bool)" where
  "reduce_possibilities c grp = reduce_loop c False grp"

section \<open>The board\<close>

text \<open>
  A \<open>Sudoku\<close> object: the grid is the list of nine rows of nine cells;
  \<open>unsolved_cells\<close> is a list of references to cell objects of the grid, a reference
  being the cell's coordinates \<open>(r_pos, c_pos)\<close>.
\<close>

type_synonym grid = "cell list list"
type_synonym pos = "nat \<times> nat"

record sudoku =
  grid :: grid
  unsolved_cells :: "pos list"

definition cell_at :: "grid \<Rightarrow> pos \<Rightarrow> cell" where
  "cell_at g p = g ! fst p ! snd p"

definition upd_cell :: "grid \<Rightarrow> pos \<Rightarrow> (cell \<Rightarrow> cell) \<Rightarrow> grid" where
  "upd_cell g p f = g[fst p := (g ! fst p)[snd p := f (g ! fst p ! snd p)]]"

definition ref :: "cell \<Rightarrow> pos" where
  "ref c = (r_pos c, c_pos c)"

definition parse_grid :: "int list \<Rightarrow> error + grid" where
  "parse_grid g =
     (if length g < 81 then Inl IndexError
      else Inr (map (\<lambda>r. map (\<lambda>c. Cell r c (g ! (9 * r + c))) [0..<9]) [0..<9]))"

definition Sudoku :: "int list \<Rightarrow> error + sudoku" where
  "Sudoku g =
     (case parse_grid g of
        Inl e \<Rightarrow> Inl e
      | Inr gr \<Rightarrow>
          Inr \<lparr>grid = gr,
               unsolved_cells = [ref c. row \<leftarrow> gr, c \<leftarrow> row, \<not> is_solved c]\<rparr>)"

definition all_solved :: "sudoku \<Rightarrow> bool" where
  "all_solved b = (length (unsolved_cells b) = 0)"

definition grid_to_list :: "sudoku \<Rightarrow> int list" where
  "grid_to_list b = [value c. row \<leftarrow> grid b, c \<leftarrow> row]"

subsection \<open>Constraint groups\<close>

text \<open>
  The sets of the source are built here as lists, and the union is the list of its
  distinct elements in ascending order. The order is read only by the loop of
  \<open>reduce_possibilities\<close>, and it decides the result only when every candidate of the
  cell is in the group (lemma \<open>reduce_possibilities_order\<close> below). In a run of
  \<open>solve\<close> on values from 0 to 9 the group then holds all of 1 to 9: the candidates of an
  unsolved cell are the values from 1 to 9 missing from the group of its last reduction,
  and its group never loses a value during propagation. CPython walks that set in
  ascending order: a set of nine elements has a table of at least 16 slots, where each
  of the integers 1 to 9 sits in the slot of its own number.
\<close>

definition special_constraining_values :: "grid \<Rightarrow> pos \<Rightarrow> int list" where
  "special_constraining_values g target =
     (let r_pos = fst target; c_pos = snd target;
          knights = [value (g ! nat (int r_pos + r) ! nat (int c_pos + c)).
                       r \<leftarrow> [-2, -1, 1, 2], c \<leftarrow> [-2, -1, 1, 2],
                       0 \<le> int r_pos + r \<and> int r_pos + r \<le> 8 \<and>
                       0 \<le> int c_pos + c \<and> int c_pos + c \<le> 8 \<and>
                       \<bar>r\<bar> \<noteq> \<bar>c\<bar> \<and>
                       is_solved (g ! nat (int r_pos + r) ! nat (int c_pos + c))];
          main_diag = (if r_pos = c_pos
                       then [value (g ! i ! i). i \<leftarrow> [0..<9], is_solved (g ! i ! i)] else []);
          side_diag = (if r_pos + c_pos = 8
                       then [value (g ! i ! (8 - i)). i \<leftarrow> [0..<9], is_solved (g ! i ! (8 - i))]
                       else [])
      in knights @ main_diag @ side_diag)"

definition constraining_values :: "grid \<Rightarrow> pos \<Rightarrow> bool \<Rightarrow> int list" where
  "constraining_values g target special =
     (let r_pos = fst target; c_pos = snd target;
          row = [value c. c \<leftarrow> g ! r_pos, ref c \<noteq> target \<and> is_solved c];
          column = [value (g ! r ! c_pos). r \<leftarrow> [0..<9],
                      r \<noteq> r_pos \<and> is_solved (g ! r ! c_pos)];
          row_start = r_pos div 3 * 3; col_start = c_pos div 3 * 3;
          square = [value (g ! r ! c). r \<leftarrow> [row_start..<row_start + 3],
                      c \<leftarrow> [col_start..<col_start + 3],
                      \<not> (r = r_pos \<and> c = c_pos) \<and> is_solved (g ! r ! c)]
      in sort (remdups (row @ column @ square @
                        (if special then special_constraining_values g target else []))))"

definition check_cell_possib :: "grid \<Rightarrow> pos \<Rightarrow> int \<Rightarrow> bool \<Rightarrow> bool" where
  "check_cell_possib g target possib_value special =
     (possib_value \<notin> set (constraining_values g target special))"

subsection \<open>Propagation\<close>

text \<open>
  \<open>__reduce_cell\<close> returns \<open>None\<close> for a solved target and the flag of
  \<open>reduce_possibilities\<close> otherwise; the cell object is updated in the grid.
\<close>

definition reduce_cell :: "grid \<Rightarrow> pos \<Rightarrow> bool \<Rightarrow> error + (grid \<times> bool option)" where
  "reduce_cell g target special =
     (if \<not> is_solved (cell_at g target)
      then (case reduce_possibilities (cell_at g target) (constraining_values g target special) of
              Inl e \<Rightarrow> Inl e
            | Inr (c, r) \<Rightarrow> Inr (upd_cell g target (\<lambda>_. c), Some r))
      else Inr (g, None))"

text \<open>
  \<open>self.unsolved_cells.remove(cell)\<close>: the first entry that is the cell itself or that
  \<open>__eq__\<close> finds equal to it is dropped.
\<close>

fun remove_cell :: "grid \<Rightarrow> pos \<Rightarrow> pos list \<Rightarrow> error + pos list" where
  "remove_cell g target [] = Inl ValueError"
| "remove_cell g target (p # ps) =
     (if p = target \<or> eq_cell (cell_at g p) (cell_at g target) then Inr ps
      else (case remove_cell g target ps of Inl e \<Rightarrow> Inl e | Inr ps' \<Rightarrow> Inr (p # ps')))"

lemma remove_cell_length:
  "remove_cell g target ps = Inr ps' \<Longrightarrow> Suc (length ps') = length ps"
  by (induction ps arbitrary: ps') (auto split: if_splits sum.splits)

text \<open>
  One sweep \<open>for cell in self.unsolved_cells\<close>: the list iterator is an index into the
  list, which the body shortens while the sweep runs.
\<close>

function sweep :: "bool \<Rightarrow> sudoku \<Rightarrow> nat \<Rightarrow> bool option list
    \<Rightarrow> error + (sudoku \<times> bool option list)" where
  "sweep special b i reducing =
     (if i < length (unsolved_cells b) then
        (let target = unsolved_cells b ! i in
         case reduce_cell (grid b) target special of
           Inl e \<Rightarrow> Inl e
         | Inr (g1, r) \<Rightarrow>
             if is_solved (cell_at g1 target)
             then (case remove_cell g1 target (unsolved_cells b) of
                     Inl e \<Rightarrow> Inl e
                   | Inr us \<Rightarrow>
                       sweep special \<lparr>grid = g1, unsolved_cells = us\<rparr> (Suc i) (reducing @ [r]))
             else sweep special (b\<lparr>grid := g1\<rparr>) (Suc i) (reducing @ [r]))
      else Inr (b, reducing))"
  by pat_completeness auto
termination
  by (relation "measure (\<lambda>(special, b, i, reducing). length (unsolved_cells b) - i)")
     (auto dest: remove_cell_length)

text \<open>
  The \<open>while reducing\<close> loop, with fuel for the number of sweeps: \<open>None\<close> is a loop
  that has not ended within the fuel.
\<close>

fun reduce_cells :: "nat \<Rightarrow> bool \<Rightarrow> sudoku \<Rightarrow> (error + sudoku) option" where
  "reduce_cells n special b =
     (if all_solved b then Some (Inr b)
      else (case n of
              0 \<Rightarrow> None
            | Suc k \<Rightarrow>
                (case sweep special b 0 [] of
                   Inl e \<Rightarrow> Some (Inl e)
                 | Inr (b1, reducing) \<Rightarrow>
                     if Some True \<in> set reducing then reduce_cells k special b1
                     else Some (Inr b1))))"

subsection \<open>The magic square\<close>

definition get_mid_square :: "grid \<Rightarrow> cell list list" where
  "get_mid_square g = map (\<lambda>row. take 3 (drop 3 row)) (take 3 (drop 3 g))"

definition line_ok :: "int list \<Rightarrow> bool" where
  "line_ok values = (\<not> (length values = 3 \<and> sum_list values \<noteq> 15))"

definition check_magic_square_state :: "grid \<Rightarrow> bool" where
  "check_magic_square_state g =
     (let mid_square = get_mid_square g in
      (\<forall>row \<in> set mid_square. line_ok [value c. c \<leftarrow> row, is_solved c]) \<and>
      (\<forall>col \<in> set [0..<3].
         line_ok [value (mid_square ! row ! col). row \<leftarrow> [0..<3],
                    is_solved (mid_square ! row ! col)]) \<and>
      line_ok [value (mid_square ! i ! i). i \<leftarrow> [0..<3], is_solved (mid_square ! i ! i)] \<and>
      line_ok [value (mid_square ! i ! (2 - i)). i \<leftarrow> [0..<3],
                 is_solved (mid_square ! i ! (2 - i))])"

text \<open>
  \<open>__brute_force_magic_square\<close>: the grid and the list \<open>mid_square\<close> are both mutated
  in place and so are both returned. The fuel bounds the depth of the recursion; the
  loop over \<open>cell.possib\<close> is the second function.
\<close>

fun brute_force_magic_square :: "nat \<Rightarrow> grid \<Rightarrow> pos list \<Rightarrow> (bool \<times> grid \<times> pos list) option"
and magic_values :: "nat \<Rightarrow> grid \<Rightarrow> pos \<Rightarrow> pos list \<Rightarrow> int list
    \<Rightarrow> (bool \<times> grid \<times> pos list) option" where
  "brute_force_magic_square n g [] = Some (True, g, [])"
| "brute_force_magic_square 0 g (cell # mid_square) = None"
| "brute_force_magic_square (Suc n) g (cell # mid_square) =
     magic_values n g cell mid_square (possib (cell_at g cell))"
| "magic_values n g cell mid_square [] = Some (False, g, cell # mid_square)"
| "magic_values n g cell mid_square (v # vs) =
     (if check_magic_square_state g \<and> check_cell_possib g cell v True
      then (case brute_force_magic_square n (upd_cell g cell (\<lambda>c. set_value c v False)) mid_square of
              None \<Rightarrow> None
            | Some (ok, g1, mid1) \<Rightarrow>
                if ok then Some (True, g1, mid1)
                else magic_values n (upd_cell g1 cell (\<lambda>c. c\<lparr>value := 0\<rparr>)) cell mid1 vs)
      else magic_values n g cell mid_square vs)"

definition solve_magic_square :: "nat \<Rightarrow> sudoku \<Rightarrow> sudoku option" where
  "solve_magic_square n b =
     (let mid_square_list = [ref c. row \<leftarrow> get_mid_square (grid b), c \<leftarrow> row, \<not> is_solved c]
      in case brute_force_magic_square n (grid b) mid_square_list of
           None \<Rightarrow> None
         | Some (ok, g1, mid1) \<Rightarrow> Some (b\<lparr>grid := g1\<rparr>))"

subsection \<open>Backtracking\<close>

fun brute_force :: "nat \<Rightarrow> bool \<Rightarrow> sudoku \<Rightarrow> (bool \<times> sudoku) option"
and brute_values :: "nat \<Rightarrow> bool \<Rightarrow> sudoku \<Rightarrow> pos \<Rightarrow> int list \<Rightarrow> (bool \<times> sudoku) option" where
  "brute_force n special b =
     (case unsolved_cells b of
        [] \<Rightarrow> Some (True, b)
      | cell # rest \<Rightarrow>
          (case n of
             0 \<Rightarrow> None
           | Suc k \<Rightarrow> brute_values k special (b\<lparr>unsolved_cells := rest\<rparr>) cell
                        (possib (cell_at (grid b) cell))))"
| "brute_values k special b cell [] =
     Some (False, b\<lparr>unsolved_cells := cell # unsolved_cells b\<rparr>)"
| "brute_values k special b cell (v # vs) =
     (if check_cell_possib (grid b) cell v special
      then (case brute_force k special (b\<lparr>grid := upd_cell (grid b) cell (\<lambda>c. set_value c v False)\<rparr>) of
              None \<Rightarrow> None
            | Some (ok, b1) \<Rightarrow>
                if ok then Some (True, b1)
                else brute_values k special
                       (b1\<lparr>grid := upd_cell (grid b1) cell (\<lambda>c. c\<lparr>value := 0\<rparr>)\<rparr>) cell vs)
      else brute_values k special b cell vs)"

subsection \<open>Solving\<close>

text \<open>
  \<open>solve\<close> discards the flag of \<open>__brute_force\<close>. The three fuels bound the
  number of sweeps of each propagation, the depth of the magic-square recursion and the
  depth of the backtracking recursion.
\<close>

definition solve :: "nat \<Rightarrow> nat \<Rightarrow> nat \<Rightarrow> bool \<Rightarrow> sudoku \<Rightarrow> (error + sudoku) option" where
  "solve sweeps mdepth depth special b =
     (case reduce_cells sweeps special b of
        None \<Rightarrow> None
      | Some (Inl e) \<Rightarrow> Some (Inl e)
      | Some (Inr b1) \<Rightarrow>
          if special
          then (case solve_magic_square mdepth b1 of
                  None \<Rightarrow> None
                | Some b2 \<Rightarrow>
                    (case reduce_cells sweeps True b2 of
                       None \<Rightarrow> None
                     | Some (Inl e) \<Rightarrow> Some (Inl e)
                     | Some (Inr b3) \<Rightarrow>
                         map_option (\<lambda>r. Inr (snd r)) (brute_force depth True b3)))
          else map_option (\<lambda>r. Inr (snd r)) (brute_force depth special b1))"

subsection \<open>Shape of the grid\<close>

definition wf_grid :: "grid \<Rightarrow> bool" where
  "wf_grid g = (length g = 9 \<and> (\<forall>row \<in> set g. length row = 9))"

subsection \<open>Measures and invariants\<close>

text \<open>
  A reference is in range when it points into the 9 by 9 grid. \<open>candidates\<close> counts the
  candidates of all cells; it is the variant of the propagation loop. A board is well
  formed when its grid has the shape above and its frontier holds references in range;
  its frontier is clean when no reference occurs twice and every referenced cell is
  unsolved.
\<close>

definition in_range :: "pos \<Rightarrow> bool" where
  "in_range p = (fst p < 9 \<and> snd p < 9)"

definition candidates :: "grid \<Rightarrow> nat" where
  "candidates g = sum_list (map (\<lambda>row. sum_list (map (\<lambda>c. length (possib c)) row)) g)"

definition wf_board :: "sudoku \<Rightarrow> bool" where
  "wf_board b = (wf_grid (grid b) \<and> (\<forall>p \<in> set (unsolved_cells b). in_range p))"

definition clean :: "sudoku \<Rightarrow> bool" where
  "clean b = (distinct (unsolved_cells b) \<and>
              (\<forall>p \<in> set (unsolved_cells b). \<not> is_solved (cell_at (grid b) p)))"

text \<open>
  The frontier is exact when it is the list, in row-major order, of the references to the
  unsolved cells of the grid.
\<close>

definition all_refs :: "pos list" where
  "all_refs = List.product [0..<9] [0..<9]"


subsection \<open>Rows, columns and boxes\<close>

text \<open>
  The 27 units of the classic rules as lists of references. A grid is consistent when no
  two solved cells of a unit hold the same value, fully solved when every cell holds a
  value from 1 to 9, and valid when every unit contains each of 1 to 9 exactly once.
  \<open>refs_ok\<close> says that every cell object sits at the coordinates it records.
\<close>

definition row_refs :: "nat \<Rightarrow> pos list" where
  "row_refs r = map (Pair r) [0..<9]"

definition col_refs :: "nat \<Rightarrow> pos list" where
  "col_refs c = map (\<lambda>r. (r, c)) [0..<9]"

definition box_refs :: "nat \<Rightarrow> nat \<Rightarrow> pos list" where
  "box_refs br bc = [(3 * br + r, 3 * bc + c). r \<leftarrow> [0..<3], c \<leftarrow> [0..<3]]"

definition units :: "pos list list" where
  "units = map row_refs [0..<9] @ map col_refs [0..<9] @
           [box_refs br bc. br \<leftarrow> [0..<3], bc \<leftarrow> [0..<3]]"

definition unit_values :: "grid \<Rightarrow> pos list \<Rightarrow> int list" where
  "unit_values g u = map (\<lambda>p. value (cell_at g p)) u"

definition consistent :: "grid \<Rightarrow> bool" where
  "consistent g =
     (\<forall>u \<in> set units. \<forall>p \<in> set u. \<forall>q \<in> set u.
        p \<noteq> q \<and> is_solved (cell_at g p) \<and> is_solved (cell_at g q)
          \<longrightarrow> value (cell_at g p) \<noteq> value (cell_at g q))"

definition fully_solved :: "grid \<Rightarrow> bool" where
  "fully_solved g = (\<forall>p \<in> set all_refs. 1 \<le> value (cell_at g p) \<and> value (cell_at g p) \<le> 9)"

definition valid :: "grid \<Rightarrow> bool" where
  "valid g =
     (\<forall>u \<in> set units. \<forall>d \<in> set [1, 2, 3, 4, 5, 6, 7, 8, 9]. count_list (unit_values g u) d = 1)"

definition refs_ok :: "grid \<Rightarrow> bool" where
  "refs_ok g = (\<forall>p \<in> set all_refs. ref (cell_at g p) = p)"

definition grid_inv :: "grid \<Rightarrow> bool" where
  "grid_inv g = (wf_grid g \<and> refs_ok g \<and> consistent g)"

subsection \<open>The central box alone\<close>

text \<open>
  On a board whose cells outside the central box are empty and whose central cells have
  the candidates 1 to 9, \<open>__brute_force_magic_square\<close> reads and writes the nine
  central values only: the group of a central cell holds the values of the other solved
  central cells, which share its box, and nothing else. \<open>centre_grid ms\<close> is that
  board for the list \<open>ms\<close> of its nine central values in row-major order, and
  \<open>centre_search\<close> and \<open>centre_values\<close> are the two functions of the sub-solver on
  that list, with the cells named by their index. Lemma \<open>centre_refines\<close> below shows
  that they compute what the functions of the source compute on \<open>centre_grid ms\<close>.
\<close>

definition centre_pos :: "nat \<Rightarrow> pos" where
  "centre_pos i = (3 + i div 3, 3 + i mod 3)"

definition centre_value :: "int list \<Rightarrow> nat \<Rightarrow> nat \<Rightarrow> int" where
  "centre_value ms r c =
     (if 3 \<le> r \<and> r < 6 \<and> 3 \<le> c \<and> c < 6 then ms ! (3 * (r - 3) + (c - 3)) else 0)"

definition centre_grid :: "int list \<Rightarrow> grid" where
  "centre_grid ms =
     map (\<lambda>r. map (\<lambda>c. (Cell r c 0)\<lparr>value := centre_value ms r c\<rparr>) [0..<9]) [0..<9]"

definition centre_lines :: "nat list list" where
  "centre_lines = [[0, 1, 2], [3, 4, 5], [6, 7, 8], [0, 3, 6], [1, 4, 7], [2, 5, 8],
                   [0, 4, 8], [2, 4, 6]]"

definition centre_ok :: "int list \<Rightarrow> bool" where
  "centre_ok ms = list_all (\<lambda>l. line_ok [ms ! i. i \<leftarrow> l, ms ! i \<noteq> 0]) centre_lines"

fun centre_search :: "nat \<Rightarrow> int list \<Rightarrow> nat list \<Rightarrow> (bool \<times> int list \<times> nat list) option"
and centre_values :: "nat \<Rightarrow> int list \<Rightarrow> nat \<Rightarrow> nat list \<Rightarrow> int list
    \<Rightarrow> (bool \<times> int list \<times> nat list) option" where
  "centre_search n ms [] = Some (True, ms, [])"
| "centre_search 0 ms (i # rest) = None"
| "centre_search (Suc n) ms (i # rest) = centre_values n ms i rest [1, 2, 3, 4, 5, 6, 7, 8, 9]"
| "centre_values n ms i rest [] = Some (False, ms, i # rest)"
| "centre_values n ms i rest (v # vs) =
     (if centre_ok ms \<and> v \<notin> set (filter (\<lambda>x. x \<noteq> 0) ms)
      then (case centre_search n (ms[i := v]) rest of
              None \<Rightarrow> None
            | Some (ok, ms1, rest1) \<Rightarrow>
                if ok then Some (True, ms1, rest1)
                else centre_values n (ms1[i := 0]) i rest1 vs)
      else centre_values n ms i rest vs)"

subsection \<open>Runs on concrete grids\<close>

text \<open>
  What the script at the end of the source does: build the board, solve it, flatten it.
  \<open>propagate\<close> stops after the first propagation.
\<close>

definition solve_grid :: "nat \<Rightarrow> nat \<Rightarrow> nat \<Rightarrow> bool \<Rightarrow> int list \<Rightarrow> (error + int list) option" where
  "solve_grid sweeps mdepth depth special g =
     (case Sudoku g of
        Inl e \<Rightarrow> Some (Inl e)
      | Inr b \<Rightarrow> map_option (map_sum id grid_to_list) (solve sweeps mdepth depth special b))"

definition propagate :: "nat \<Rightarrow> bool \<Rightarrow> int list \<Rightarrow> sudoku option" where
  "propagate sweeps special g =
     (case Sudoku g of
        Inl e \<Rightarrow> None
      | Inr b \<Rightarrow> (case reduce_cells sweeps special b of Some (Inr b1) \<Rightarrow> Some b1 | _ \<Rightarrow> None))"

text \<open>
  The puzzle of the source's script; its solution with the first row changed to hold two
  8s and the last cell emptied; and a grid whose four unsolved cells of row 3 have the
  candidates \<open>{2, 6, 7}\<close>, \<open>{2, 6, 7}\<close>, \<open>{2, 6, 7}\<close> and \<open>{2, 6}\<close> after propagation.
\<close>

definition sample_grid :: "int list" where
  "sample_grid =
     [0, 0, 0, 0, 0, 0, 0, 0, 0,
      0, 0, 0, 0, 0, 0, 0, 0, 0,
      0, 0, 0, 0, 0, 0, 0, 0, 0,
      3, 8, 4, 0, 0, 0, 0, 0, 0,
      0, 0, 0, 0, 0, 0, 0, 0, 0,
      0, 0, 0, 0, 0, 0, 0, 0, 0,
      0, 0, 0, 0, 0, 0, 0, 0, 0,
      0, 0, 0, 0, 0, 0, 0, 0, 0,
      0, 0, 0, 0, 0, 0, 0, 0, 2]"

definition conflict_grid :: "int list" where
  "conflict_grid =
     [8, 8, 3, 5, 6, 7, 2, 1, 9,
      2, 7, 5, 9, 1, 3, 8, 4, 6,
      6, 1, 9, 4, 2, 8, 3, 7, 5,
      3, 8, 4, 6, 7, 2, 9, 5, 1,
      7, 2, 6, 1, 5, 9, 4, 8, 3,
      9, 5, 1, 8, 3, 4, 6, 2, 7,
      5, 3, 7, 2, 8, 6, 1, 9, 4,
      4, 6, 2, 7, 9, 1, 5, 3, 8,
      1, 9, 8, 3, 4, 5, 7, 6, 0]"

definition stale_grid :: "int list" where
  "stale_grid =
     [1, 3, 4, 5, 8, 9, 7, 1, 3,
      4, 5, 8, 9, 1, 3, 4, 5, 8,
      9, 1, 3, 4, 5, 8, 9, 1, 3,
      1, 3, 4, 0, 0, 0, 0, 5, 8,
      5, 8, 9, 9, 5, 1, 1, 3, 4,
      3, 4, 1, 4, 3, 8, 9, 4, 5,
      8, 9, 5, 1, 4, 3, 5, 8, 9,
      1, 3, 4, 5, 8, 9, 1, 3, 4,
      5, 8, 9, 3, 1, 4, 8, 9, 1]"

text \<open>
  \<open>over_grid\<close> has no two equal values in any unit, and its two empty cells see all nine
  values. \<open>rect_grid\<close> is the solution of the source's script with four cells emptied,
  each left with the candidates 4 and 8. \<open>hole_grid\<close> is all 5 with the centre cell
  empty.
\<close>

definition over_grid :: "int list" where
  "over_grid =
     [8, 4, 3, 5, 6, 7, 2, 1, 0,
      2, 7, 5, 9, 1, 3, 8, 4, 6,
      6, 1, 9, 4, 2, 8, 3, 7, 5,
      3, 8, 4, 6, 7, 2, 0, 5, 9,
      7, 2, 6, 1, 5, 9, 4, 8, 3,
      9, 5, 1, 8, 3, 4, 6, 2, 7,
      5, 3, 7, 2, 8, 6, 1, 9, 4,
      4, 6, 2, 7, 9, 1, 5, 3, 8,
      1, 9, 8, 3, 4, 5, 7, 6, 2]"

definition rect_grid :: "int list" where
  "rect_grid =
     [8, 4, 3, 5, 6, 7, 2, 1, 9,
      2, 7, 5, 9, 1, 3, 8, 4, 6,
      6, 1, 9, 0, 2, 0, 3, 7, 5,
      3, 8, 4, 6, 7, 2, 9, 5, 1,
      7, 2, 6, 1, 5, 9, 4, 8, 3,
      9, 5, 1, 0, 3, 0, 6, 2, 7,
      5, 3, 7, 2, 8, 6, 1, 9, 4,
      4, 6, 2, 7, 9, 1, 5, 3, 8,
      1, 9, 8, 3, 4, 5, 7, 6, 2]"

definition hole_grid :: "int list" where
  "hole_grid = (replicate 81 5)[40 := 0]"

section \<open>Properties of \<open>reduce_possibilities\<close>\<close>

lemma length_ge_card_diff: "card (set xs - A) \<le> length xs"
  by (meson List.finite_set card_length card_mono Diff_subset le_trans)

lemma set_removeAll_diff: "set (removeAll x xs) - set ys = set xs - set (x # ys)"
  by auto

lemma filter_removeAll_notin:
  "filter (\<lambda>v. v \<notin> set ys) (removeAll x xs) = filter (\<lambda>v. v \<notin> set (x # ys)) xs"
  by (induction xs) auto

lemma reduce_loop_conflict:
  "value c \<noteq> 0 \<Longrightarrow> value c \<in> set grp \<Longrightarrow>
   possib c = [] \<or> 2 \<le> card (set (possib c) - set grp) \<Longrightarrow>
   reduce_loop c red grp = Inl ConflictError"
proof (induction grp arbitrary: c red)
  case Nil
  then show ?case by simp
next
  case (Cons a grp)
  show ?case
  proof (cases "value c = a")
    case True
    then show ?thesis by (simp add: eq_int_def)
  next
    case False
    let ?c1 = "c\<lparr>possib := removeAll a (possib c)\<rparr>"
    have c1: "(if a \<in> set (possib c) then ?c1 else c) = ?c1"
      by simp
    have inv: "possib ?c1 = [] \<or> 2 \<le> card (set (possib ?c1) - set grp)"
      using Cons.prems(3) by (auto simp: set_removeAll_diff simp del: set_removeAll)
    then have len: "length (possib ?c1) \<noteq> 1"
      using length_ge_card_diff [of "possib ?c1" "set grp"] by auto
    have "reduce_loop ?c1 r grp = Inl ConflictError" for r
      using Cons.IH [of ?c1 r] Cons.prems(1,2) False inv by auto
    then show ?thesis
      using False len unfolding reduce_loop.simps c1 Let_def by (simp add: eq_int_def)
  qed
qed

lemma reduce_loop_keep:
  "value c = 0 \<Longrightarrow> 0 \<notin> set grp \<Longrightarrow> 2 \<le> card (set (possib c) - set grp) \<Longrightarrow>
   reduce_loop c red grp =
     Inr (c\<lparr>possib := filter (\<lambda>v. v \<notin> set grp) (possib c)\<rparr>,
          red \<or> (\<exists>v \<in> set grp. v \<in> set (possib c)))"
proof (induction grp arbitrary: c red)
  case Nil
  then show ?case by simp
next
  case (Cons a grp)
  let ?c1 = "c\<lparr>possib := removeAll a (possib c)\<rparr>"
  let ?r1 = "if a \<in> set (possib c) then True else red"
  have c1: "(if a \<in> set (possib c) then ?c1 else c) = ?c1"
    by simp
  have inv: "2 \<le> card (set (possib ?c1) - set grp)"
    using Cons.prems(3) by (simp add: set_removeAll_diff del: set_removeAll)
  then have len: "length (possib ?c1) \<noteq> 1"
    using length_ge_card_diff [of "possib ?c1" "set grp"] by auto
  have ih: "reduce_loop ?c1 ?r1 grp =
      Inr (?c1\<lparr>possib := filter (\<lambda>v. v \<notin> set grp) (possib ?c1)\<rparr>,
           ?r1 \<or> (\<exists>v \<in> set grp. v \<in> set (possib ?c1)))"
    using Cons.IH [of ?c1 ?r1] Cons.prems(1,2) inv by auto
  have ne: "\<not> eq_int c a"
    using Cons.prems(1,2) by (auto simp: eq_int_def)
  have "reduce_loop c red (a # grp) = reduce_loop ?c1 ?r1 grp"
    using ne len unfolding reduce_loop.simps c1 Let_def by simp
  also have "\<dots> = Inr (c\<lparr>possib := filter (\<lambda>v. v \<notin> set (a # grp)) (possib c)\<rparr>,
          red \<or> (\<exists>v \<in> set (a # grp). v \<in> set (possib c)))"
    unfolding ih by (auto simp: filter_removeAll_notin simp del: set_removeAll)
  finally show ?case .
qed


lemma reduce_loop_commit:
  "value c = 0 \<Longrightarrow> 0 \<notin> set grp \<Longrightarrow> distinct (possib c) \<Longrightarrow> 2 \<le> length (possib c) \<Longrightarrow>
   card (set (possib c) - set grp) < 2 \<Longrightarrow>
   \<exists>pre g rest x. grp = pre @ g # rest \<and> set (possib c) - set (pre @ [g]) = {x} \<and>
     reduce_loop c red grp = Inr (c\<lparr>value := x, possib := []\<rparr>, True)"
proof (induction grp arbitrary: c red)
  case Nil
  then show ?case by (simp add: distinct_card)
next
  case (Cons a grp)
  let ?c1 = "c\<lparr>possib := removeAll a (possib c)\<rparr>"
  let ?r1 = "if a \<in> set (possib c) then True else red"
  have c1: "(if a \<in> set (possib c) then ?c1 else c) = ?c1"
    by simp
  have ne: "\<not> eq_int c a"
    using Cons.prems(1,2) by (auto simp: eq_int_def)
  have dist: "distinct (possib ?c1)"
    using Cons.prems(3) by (simp add: distinct_removeAll)
  have len1: "length (possib c) \<le> Suc (length (possib ?c1))"
  proof (cases "a \<in> set (possib c)")
    case True
    then have "0 < length (possib c)" by (cases "possib c") auto
    then show ?thesis
      using Cons.prems(3) True
      by (simp add: distinct_remove1_removeAll [symmetric] length_remove1)
  next
    case False
    then show ?thesis by simp
  qed
  show ?case
  proof (cases "length (possib ?c1) = 1")
    case True
    then obtain x where x: "possib ?c1 = [x]"
      by (cases "possib ?c1") auto
    have mem: "a \<in> set (possib c)"
    proof (rule ccontr)
      assume "a \<notin> set (possib c)"
      then have "possib ?c1 = possib c" by simp
      with True Cons.prems(4) show False by simp
    qed
    have "set (possib c) - set ([] @ [a]) = {x}"
      using x set_removeAll [of a "possib c"] by simp
    moreover have "reduce_loop c red (a # grp) = Inr (c\<lparr>value := x, possib := []\<rparr>, True)"
      using ne True mem x unfolding reduce_loop.simps c1 Let_def by (simp add: set_value_def)
    ultimately show ?thesis by (metis append_Nil)
  next
    case False
    with len1 Cons.prems(4) have len: "2 \<le> length (possib ?c1)" by simp
    have card1: "card (set (possib ?c1) - set grp) < 2"
      using Cons.prems(5) by (simp add: set_removeAll_diff del: set_removeAll)
    obtain pre g rest x where split: "grp = pre @ g # rest"
      and rem: "set (possib ?c1) - set (pre @ [g]) = {x}"
      and res: "reduce_loop ?c1 ?r1 grp = Inr (?c1\<lparr>value := x, possib := []\<rparr>, True)"
      using Cons.IH [of ?c1 ?r1] Cons.prems(1,2) dist len card1 by auto
    have "reduce_loop c red (a # grp) = reduce_loop ?c1 ?r1 grp"
      using ne False unfolding reduce_loop.simps c1 Let_def by simp
    then have "reduce_loop c red (a # grp) = Inr (c\<lparr>value := x, possib := []\<rparr>, True)"
      using res by simp
    moreover have "a # grp = (a # pre) @ g # rest"
      using split by simp
    moreover have "set (possib c) - set ((a # pre) @ [g]) = {x}"
      using rem by auto
    ultimately show ?thesis by blast
  qed
qed

lemma reduce_loop_single:
  assumes "value c = 0" and "0 \<notin> set grp" and "possib c = [x]" and "x \<notin> set grp"
  shows "reduce_loop c red grp =
           (if grp = [] then Inr (c, red) else Inr (c\<lparr>value := x, possib := []\<rparr>, red))"
proof (cases grp)
  case Nil
  then show ?thesis by simp
next
  case (Cons a rest)
  have "a \<noteq> 0" and "a \<noteq> x" using assms(2,4) Cons by auto
  then show ?thesis
    using assms(1,3) Cons by (simp add: eq_int_def set_value_def Let_def)
qed

lemma reduce_possibilities_order:
  assumes v: "value c = 0" and z: "0 \<notin> set grp" and s: "set grp' = set grp"
    and d: "distinct (possib c)" and n: "\<not> set (possib c) \<subseteq> set grp"
  shows "reduce_possibilities c grp' = reduce_possibilities c grp"
proof -
  let ?S = "set (possib c) - set grp"
  have z': "0 \<notin> set grp'" using z s by simp
  have ne: "?S \<noteq> {}" using n by auto
  consider (keep) "2 \<le> card ?S"
    | (commit) "card ?S < 2" "2 \<le> length (possib c)"
    | (single) "card ?S < 2" "length (possib c) < 2"
    by linarith
  then show ?thesis
  proof cases
    case keep
    then have k': "2 \<le> card (set (possib c) - set grp')" using s by simp
    show ?thesis
      unfolding reduce_possibilities_def
      by (simp only: reduce_loop_keep [OF v z keep] reduce_loop_keep [OF v z' k'] s)
  next
    case commit
    then have c': "card (set (possib c) - set grp') < 2" using s by simp
    from reduce_loop_commit [OF v z d commit(2,1), of False]
    obtain pre g rest x where a: "grp = pre @ g # rest"
      "set (possib c) - set (pre @ [g]) = {x}"
      "reduce_loop c False grp = Inr (c\<lparr>value := x, possib := []\<rparr>, True)" by blast
    from reduce_loop_commit [OF v z' d commit(2) c', of False]
    obtain pre' g' rest' x' where b: "grp' = pre' @ g' # rest'"
      "set (possib c) - set (pre' @ [g']) = {x'}"
      "reduce_loop c False grp' = Inr (c\<lparr>value := x', possib := []\<rparr>, True)" by blast
    have "?S \<subseteq> {x}" using a(1,2) by auto
    moreover have "?S \<subseteq> {x'}" using b(1,2) s by auto
    ultimately have "x = x'" using ne by auto
    then show ?thesis using a(3) b(3) by (simp add: reduce_possibilities_def)
  next
    case single
    from ne single(2) obtain x where p: "possib c = [x]"
      by (cases "possib c") (auto simp: Suc_less_eq2)
    with n have x: "x \<notin> set grp" by simp
    then have x': "x \<notin> set grp'" using s by simp
    have "(grp' = []) = (grp = [])" using s by (metis set_empty)
    then show ?thesis
      unfolding reduce_possibilities_def
      by (simp only: reduce_loop_single [OF v z p x] reduce_loop_single [OF v z' p x'])
  qed
qed

text \<open>
  C5, as stated: every solved cell raises \<open>ConflictError\<close> on every group that holds its
  value. The cell \<open>Cell(0, 0, 9)\<close> with the group \<open>1, ..., 9\<close> does not: seven
  eliminations leave one candidate, which is committed before the 9 is reached.
\<close>

theorem reduce_possibilities_conflict_counterexample:
  "\<not> (\<forall>c grp. value c \<noteq> 0 \<longrightarrow> value c \<in> set grp \<longrightarrow>
        reduce_possibilities c grp = Inl ConflictError)"
proof
  assume a: "\<forall>c grp. value c \<noteq> 0 \<longrightarrow> value c \<in> set grp \<longrightarrow>
        reduce_possibilities c grp = Inl ConflictError"
  have "reduce_possibilities (Cell 0 0 9) [1, 2, 3, 4, 5, 6, 7, 8, 9] = Inl ConflictError"
    by (rule a [rule_format]) (simp_all add: Cell_def)
  then show False
    by (simp add: reduce_possibilities_def Cell_def upt_rec eq_int_def set_value_def)
qed

text \<open>
  C5, amended: a solved cell raises \<open>ConflictError\<close> on a group that holds its value
  when its candidate set is empty (as after \<open>set_value\<close> with certainty) or keeps at
  least two candidates outside the group.
\<close>

theorem reduce_possibilities_conflict:
  assumes "value c \<noteq> 0" and "value c \<in> set grp"
    and "possib c = [] \<or> 2 \<le> card (set (possib c) - set grp)"
  shows "reduce_possibilities c grp = Inl ConflictError"
  unfolding reduce_possibilities_def using assms by (rule reduce_loop_conflict)

theorem reduce_possibilities_conflict_witness:
  "reduce_possibilities \<lparr>r_pos = 0, c_pos = 0, value = 5, possib = []\<rparr> [3, 5] = Inl ConflictError"
  using reduce_possibilities_conflict [of "\<lparr>r_pos = 0, c_pos = 0, value = 5, possib = []\<rparr>" "[3, 5]"]
  by simp

text \<open>
  C10: on an unsolved cell with at least two candidates and a group of solved values,
  \<open>reduce_possibilities\<close> never raises. Either at least two candidates survive the whole
  group, and the cell stays unsolved with exactly those; or the eliminations of a prefix
  of the group leave one candidate \<open>x\<close>, which is committed whatever the rest of the
  group holds, so the cell never ends unsolved with no candidate. With candidates
  \<open>{4, 7}\<close> and both in the group, the committed value is a member of the group and no
  \<open>ConflictError\<close> is raised, in either iteration order.
\<close>

theorem reduce_possibilities_single:
  assumes "value c = 0" and "0 \<notin> set grp" and "distinct (possib c)" and "2 \<le> length (possib c)"
  shows "(2 \<le> card (set (possib c) - set grp) \<longrightarrow>
            reduce_possibilities c grp =
              Inr (c\<lparr>possib := filter (\<lambda>v. v \<notin> set grp) (possib c)\<rparr>,
                   \<exists>v \<in> set grp. v \<in> set (possib c))) \<and>
         (card (set (possib c) - set grp) < 2 \<longrightarrow>
            (\<exists>pre g rest x. grp = pre @ g # rest \<and> set (possib c) - set (pre @ [g]) = {x} \<and>
               reduce_possibilities c grp = Inr (c\<lparr>value := x, possib := []\<rparr>, True))) \<and>
         reduce_possibilities \<lparr>r_pos = 0, c_pos = 0, value = 0, possib = [4, 7]\<rparr> [4, 7] =
           Inr (\<lparr>r_pos = 0, c_pos = 0, value = 7, possib = []\<rparr>, True) \<and>
         reduce_possibilities \<lparr>r_pos = 0, c_pos = 0, value = 0, possib = [4, 7]\<rparr> [7, 4] =
           Inr (\<lparr>r_pos = 0, c_pos = 0, value = 4, possib = []\<rparr>, True)"
proof (intro conjI impI)
  assume "2 \<le> card (set (possib c) - set grp)"
  then show "reduce_possibilities c grp =
              Inr (c\<lparr>possib := filter (\<lambda>v. v \<notin> set grp) (possib c)\<rparr>,
                   \<exists>v \<in> set grp. v \<in> set (possib c))"
    unfolding reduce_possibilities_def using reduce_loop_keep [OF assms(1,2), of False] by simp
next
  assume "card (set (possib c) - set grp) < 2"
  then show "\<exists>pre g rest x. grp = pre @ g # rest \<and> set (possib c) - set (pre @ [g]) = {x} \<and>
               reduce_possibilities c grp = Inr (c\<lparr>value := x, possib := []\<rparr>, True)"
    unfolding reduce_possibilities_def using reduce_loop_commit [OF assms] by simp
qed (simp_all add: reduce_possibilities_def eq_int_def set_value_def)

theorem reduce_possibilities_single_witness:
  "reduce_possibilities \<lparr>r_pos = 0, c_pos = 0, value = 0, possib = [1, 2, 3]\<rparr> [2] =
     Inr (\<lparr>r_pos = 0, c_pos = 0, value = 0, possib = [1, 3]\<rparr>, True) \<and>
   (\<exists>pre g rest x. [1, 2, 5] = pre @ g # rest \<and> set [1, 2, 3 :: int] - set (pre @ [g]) = {x} \<and>
     reduce_possibilities \<lparr>r_pos = 0, c_pos = 0, value = 0, possib = [1, 2, 3]\<rparr> [1, 2, 5] =
       Inr (\<lparr>r_pos = 0, c_pos = 0, value = x, possib = []\<rparr>, True))"
proof -
  let ?c = "\<lparr>r_pos = 0, c_pos = 0, value = 0, possib = [1, 2, 3]\<rparr>"
  have d1: "set [1, 2, 3 :: int] - set [2] = {1, 3}" by auto
  have d2: "set [1, 2, 3 :: int] - set [1, 2, 5] = {3}" by auto
  have "2 \<le> card (set (possib ?c) - set [2])"
    unfolding cell.simps d1 by simp
  moreover have "card (set (possib ?c) - set [1, 2, 5]) < 2"
    unfolding cell.simps d2 by simp
  ultimately show ?thesis
    using reduce_possibilities_single [of ?c "[2]"] reduce_possibilities_single [of ?c "[1, 2, 5]"]
    by simp
qed

section \<open>Construction, flattening and solved boards\<close>

lemma length_concat_uniform:
  "\<forall>row \<in> set xs. length row = n \<Longrightarrow> length (concat xs) = n * length xs"
  by (induction xs) auto

lemma nth_concat_uniform:
  "\<forall>row \<in> set xs. length row = n \<Longrightarrow> r < length xs \<Longrightarrow> c < n \<Longrightarrow>
   concat xs ! (n * r + c) = xs ! r ! c"
proof (induction xs arbitrary: r)
  case Nil
  then show ?case by simp
next
  case (Cons x xs)
  show ?case
  proof (cases r)
    case 0
    with Cons.prems show ?thesis by (simp add: nth_append)
  next
    case (Suc k)
    have "n * Suc k + c = length x + (n * k + c)"
      using Cons.prems(1) by simp
    then have "concat (x # xs) ! (n * r + c) = concat xs ! (n * k + c)"
      unfolding Suc by (simp only: concat.simps nth_append_length_plus)
    with Cons Suc show ?thesis by simp
  qed
qed

lemma parse_grid_Inr:
  "81 \<le> length g \<Longrightarrow>
   parse_grid g = Inr (map (\<lambda>r. map (\<lambda>c. Cell r c (g ! (9 * r + c))) [0..<9]) [0..<9])"
  by (simp add: parse_grid_def)

lemma wf_grid_parsed:
  "wf_grid (map (\<lambda>r. map (\<lambda>c. Cell r c (g ! (9 * r + c))) [0..<9]) [0..<9])"
  by (simp add: wf_grid_def)

lemma values_parsed:
  "concat (map (map value) (map (\<lambda>r. map (\<lambda>c. Cell r c (g ! (9 * r + c))) [0..<9]) [0..<9]))
   = take 81 g" if "81 \<le> length g"
proof (rule nth_equalityI)
  let ?xs = "map (map value) (map (\<lambda>r. map (\<lambda>c. Cell r c (g ! (9 * r + c))) [0..<9]) [0..<9])"
  have u: "\<forall>row \<in> set ?xs. length row = 9" by simp
  show len: "length (concat ?xs) = length (take 81 g)"
    using that length_concat_uniform [OF u] by simp
  fix i assume "i < length (concat ?xs)"
  then have i: "i < 81" using len by simp
  then have d: "i div 9 < 9" "i mod 9 < 9" by auto
  have "concat ?xs ! (9 * (i div 9) + i mod 9) = ?xs ! (i div 9) ! (i mod 9)"
    by (rule nth_concat_uniform [OF u]) (use d in simp_all)
  also have "\<dots> = g ! (9 * (i div 9) + i mod 9)"
    using d by (simp add: Cell_def)
  finally show "concat ?xs ! i = take 81 g ! i"
    using i by simp
qed

lemma grid_to_list_concat: "grid_to_list b = concat (map (map value) (grid b))"
  by (simp add: grid_to_list_def)

lemma grid_to_list_length: "wf_grid (grid b) \<Longrightarrow> length (grid_to_list b) = 81"
  by (simp add: grid_to_list_concat wf_grid_def length_concat_uniform [where n = 9])

lemma Sudoku_Inr:
  "81 \<le> length g \<Longrightarrow> \<exists>b. Sudoku g = Inr b \<and> wf_grid (grid b) \<and> grid_to_list b = take 81 g \<and>
     grid b = map (\<lambda>r. map (\<lambda>c. Cell r c (g ! (9 * r + c))) [0..<9]) [0..<9] \<and>
     unsolved_cells b = [ref c. row \<leftarrow> grid b, c \<leftarrow> row, \<not> is_solved c]"
  using values_parsed [of g]
  by (simp add: Sudoku_def parse_grid_Inr grid_to_list_concat wf_grid_parsed del: upt_Suc map_map)

text \<open>
  C8: flattening a board of nine rows of nine cells with \<open>grid_to_list\<close> and building a
  fresh \<open>Sudoku\<close> from the list succeeds, and the fresh board has the same value in
  every cell.
\<close>

theorem grid_to_list_roundtrip:
  assumes "length (grid b) = 9" and "\<forall>row \<in> set (grid b). length row = 9"
  shows "\<exists>b'. Sudoku (grid_to_list b) = Inr b' \<and> grid_to_list b' = grid_to_list b \<and>
           map (map value) (grid b') = map (map value) (grid b)"
proof -
  have wf: "wf_grid (grid b)" using assms by (simp add: wf_grid_def)
  let ?g = "grid_to_list b"
  have len: "length ?g = 81" by (rule grid_to_list_length [OF wf])
  then obtain b' where b': "Sudoku ?g = Inr b'" "grid_to_list b' = take 81 ?g"
    "grid b' = map (\<lambda>r. map (\<lambda>c. Cell r c (?g ! (9 * r + c))) [0..<9]) [0..<9]"
    using Sudoku_Inr [of ?g] by auto
  have u: "\<forall>row \<in> set (map (map value) (grid b)). length row = 9" using assms by simp
  have cellv: "?g ! (9 * r + c) = value (grid b ! r ! c)" if "r < 9" "c < 9" for r c
    using nth_concat_uniform [OF u, of r c] that assms by (simp add: grid_to_list_concat)
  have "map (map value) (grid b') = map (map value) (grid b)"
  proof (rule nth_equalityI)
    show "length (map (map value) (grid b')) = length (map (map value) (grid b))"
      using assms b'(3) by simp
    fix r assume "r < length (map (map value) (grid b'))"
    then have r: "r < 9" using b'(3) by simp
    have lr: "length (grid b ! r) = 9" using assms r by simp
    show "map (map value) (grid b') ! r = map (map value) (grid b) ! r"
    proof (rule nth_equalityI)
      show "length (map (map value) (grid b') ! r) = length (map (map value) (grid b) ! r)"
        using r lr assms b'(3) by simp
      fix c assume "c < length (map (map value) (grid b') ! r)"
      then have c: "c < 9" using r b'(3) by simp
      show "map (map value) (grid b') ! r ! c = map (map value) (grid b) ! r ! c"
        using r c lr assms(1) cellv [OF r c] by (simp add: b'(3) Cell_def)
    qed
  qed
  with b' len show ?thesis by simp
qed


theorem grid_to_list_roundtrip_witness:
  "length (grid \<lparr>grid = map (\<lambda>r. map (\<lambda>c. Cell r c 5) [0..<9]) [0..<9], unsolved_cells = []\<rparr>) = 9 \<and>
   (\<exists>b'. Sudoku (grid_to_list
             \<lparr>grid = map (\<lambda>r. map (\<lambda>c. Cell r c 5) [0..<9]) [0..<9], unsolved_cells = []\<rparr>) = Inr b' \<and>
         grid_to_list b' = replicate 81 5)"
proof -
  let ?B = "\<lparr>grid = map (\<lambda>r. map (\<lambda>c. Cell r c 5) [0..<9]) [0..<9], unsolved_cells = []\<rparr>"
  have v: "grid_to_list ?B = replicate 81 5"
    by (simp add: grid_to_list_def Cell_def upt_rec eval_nat_numeral)
  have "length (grid ?B) = 9" "\<forall>row \<in> set (grid ?B). length row = 9"
    by simp_all
  from grid_to_list_roundtrip [OF this] obtain b'
    where "Sudoku (grid_to_list ?B) = Inr b'" "grid_to_list b' = grid_to_list ?B"
    by blast
  then show ?thesis
    unfolding v by simp
qed

lemma no_unsolved:
  "\<forall>row \<in> set gr. \<forall>c \<in> set row. is_solved c \<Longrightarrow>
   [ref c. row \<leftarrow> gr, c \<leftarrow> row, \<not> is_solved c] = []"
  by (induction gr) auto

lemma mid_square_cells:
  "row \<in> set (get_mid_square g) \<Longrightarrow> c \<in> set row \<Longrightarrow> \<exists>row' \<in> set g. c \<in> set row'"
  by (auto simp: get_mid_square_def dest!: in_set_takeD in_set_dropD)

lemma parsed_solved:
  assumes "length g = 81" and "0 \<notin> set g"
    and "row \<in> set (map (\<lambda>r. map (\<lambda>c. Cell r c (g ! (9 * r + c))) [0..<9]) [0..<9])"
    and "c \<in> set row"
  shows "is_solved c"
proof -
  from assms(3,4) obtain r k where rk: "r < 9" "k < 9" "c = Cell r k (g ! (9 * r + k))"
    by auto
  then have "9 * r + k < length g" using assms(1) by simp
  then have "g ! (9 * r + k) \<in> set g" by (rule nth_mem)
  with assms(2) rk show ?thesis by (auto simp: is_solved_def Cell_def)
qed

text \<open>
  C7: on a board built from 81 values none of which is 0, \<open>solve\<close> ends in either
  mode and with any fuel, raises nothing and returns the board as it was; the grid need
  not even be valid.
\<close>

theorem solve_solved_unchanged:
  assumes "length g = 81" and "0 \<notin> set g"
  shows "\<exists>b. Sudoku g = Inr b \<and> solve n m k special b = Some (Inr b) \<and> grid_to_list b = g"
proof -
  obtain b where b: "Sudoku g = Inr b" "grid_to_list b = take 81 g"
    "grid b = map (\<lambda>r. map (\<lambda>c. Cell r c (g ! (9 * r + c))) [0..<9]) [0..<9]"
    "unsolved_cells b = [ref c. row \<leftarrow> grid b, c \<leftarrow> row, \<not> is_solved c]"
    using Sudoku_Inr [of g] assms(1) by auto
  have solved: "\<forall>row \<in> set (grid b). \<forall>c \<in> set row. is_solved c"
    unfolding b(3) using parsed_solved [OF assms] by blast
  have front: "unsolved_cells b = []"
    unfolding b(4) by (rule no_unsolved [OF solved])
  have red: "reduce_cells n sp b = Some (Inr b)" for sp
    using front by (simp add: all_solved_def)
  have brute: "brute_force k sp b = Some (True, b)" for sp
    using front by simp
  have "\<forall>row \<in> set (get_mid_square (grid b)). \<forall>c \<in> set row. is_solved c"
    using solved mid_square_cells by blast
  then have "[ref c. row \<leftarrow> get_mid_square (grid b), c \<leftarrow> row, \<not> is_solved c] = []"
    by (rule no_unsolved)
  then have magic: "solve_magic_square m b = Some b"
    unfolding solve_magic_square_def Let_def by (simp only:) simp
  have "solve n m k special b = Some (Inr b)"
    by (simp add: solve_def red brute magic del: reduce_cells.simps brute_force.simps)
  with b(1,2) assms(1) show ?thesis by simp
qed

theorem solve_solved_unchanged_witness:
  "\<exists>b. Sudoku [8, 4, 3, 5, 6, 7, 2, 1, 9,
                2, 7, 5, 9, 1, 3, 8, 4, 6,
                6, 1, 9, 4, 2, 8, 3, 7, 5,
                3, 8, 4, 6, 7, 2, 9, 5, 1,
                7, 2, 6, 1, 5, 9, 4, 8, 3,
                9, 5, 1, 8, 3, 4, 6, 2, 7,
                5, 3, 7, 2, 8, 6, 1, 9, 4,
                4, 6, 2, 7, 9, 1, 5, 3, 8,
                1, 9, 8, 3, 4, 5, 7, 6, 2] = Inr b \<and>
       solve 0 0 0 True b = Some (Inr b) \<and>
       grid_to_list b = [8, 4, 3, 5, 6, 7, 2, 1, 9,
                2, 7, 5, 9, 1, 3, 8, 4, 6,
                6, 1, 9, 4, 2, 8, 3, 7, 5,
                3, 8, 4, 6, 7, 2, 9, 5, 1,
                7, 2, 6, 1, 5, 9, 4, 8, 3,
                9, 5, 1, 8, 3, 4, 6, 2, 7,
                5, 3, 7, 2, 8, 6, 1, 9, 4,
                4, 6, 2, 7, 9, 1, 5, 3, 8,
                1, 9, 8, 3, 4, 5, 7, 6, 2]"
  by (rule solve_solved_unchanged) simp_all

section \<open>Updates of the grid and the variant\<close>

lemma cell_at_upd_same:
  "fst p < length g \<Longrightarrow> snd p < length (g ! fst p) \<Longrightarrow> cell_at (upd_cell g p f) p = f (cell_at g p)"
  by (simp add: cell_at_def upd_cell_def)

lemma upd_cell_beyond:
  "\<not> (fst p < length g \<and> snd p < length (g ! fst p)) \<Longrightarrow> upd_cell g p f = g"
proof (cases "fst p < length g")
  case True
  assume "\<not> (fst p < length g \<and> snd p < length (g ! fst p))"
  with True have "(g ! fst p)[snd p := f (g ! fst p ! snd p)] = g ! fst p"
    by (intro list_update_beyond) simp
  then show ?thesis by (simp add: upd_cell_def)
next
  case False
  then show ?thesis by (simp add: upd_cell_def not_less list_update_beyond)
qed

lemma cell_at_upd_other:
  assumes "q \<noteq> p"
  shows "cell_at (upd_cell g p f) q = cell_at g q"
proof (cases "fst p < length g \<and> snd p < length (g ! fst p)")
  case True
  show ?thesis
  proof (cases "fst q = fst p")
    case same: True
    with assms have "snd q \<noteq> snd p" by (auto simp: prod_eq_iff)
    with True same show ?thesis by (simp add: cell_at_def upd_cell_def)
  next
    case False
    then show ?thesis by (simp add: cell_at_def upd_cell_def)
  qed
next
  case False
  then show ?thesis by (simp add: upd_cell_beyond)
qed

lemma map_length_upd: "map length (upd_cell g p f) = map length g"
proof (cases "fst p < length g \<and> snd p < length (g ! fst p)")
  case True
  then have "(map length g)[fst p := length (g ! fst p)] = map length g"
    by (metis length_map list_update_id nth_map)
  then show ?thesis by (simp add: upd_cell_def map_update)
next
  case False
  then show ?thesis by (simp add: upd_cell_beyond)
qed

lemma wf_grid_map_length: "wf_grid g \<longleftrightarrow> map length g = replicate 9 9"
proof
  assume "wf_grid g"
  then show "map length g = replicate 9 9"
    by (intro nth_equalityI) (auto simp: wf_grid_def)
next
  assume a: "map length g = replicate 9 9"
  then have l: "length g = 9" by (metis length_map length_replicate)
  have "length row = 9" if "row \<in> set g" for row
  proof -
    have "length row \<in> set (map length g)" using that by simp
    then show ?thesis unfolding a by simp
  qed
  with l show "wf_grid g" by (simp add: wf_grid_def)
qed

lemma wf_grid_upd [simp]: "wf_grid (upd_cell g p f) = wf_grid g"
  by (simp add: wf_grid_map_length map_length_upd)

lemma wf_in_range:
  "wf_grid g \<Longrightarrow> in_range p \<Longrightarrow> fst p < length g \<and> snd p < length (g ! fst p)"
  by (simp add: wf_grid_def in_range_def)

lemma sum_list_upd_nat:
  fixes xs :: "nat list"
  shows "i < length xs \<Longrightarrow> sum_list (xs[i := y]) + xs ! i = sum_list xs + y"
  by (induction xs arbitrary: i) (auto split: nat.splits)

lemma candidates_upd:
  assumes "fst p < length g" and "snd p < length (g ! fst p)"
  shows "candidates (upd_cell g p f) + length (possib (cell_at g p))
         = candidates g + length (possib (f (cell_at g p)))"
proof -
  let ?w = "\<lambda>row. sum_list (map (\<lambda>c. length (possib c)) row)"
  let ?row = "g ! fst p"
  have row: "?w (?row[snd p := f (?row ! snd p)]) + length (possib (?row ! snd p))
             = ?w ?row + length (possib (f (?row ! snd p)))"
    using sum_list_upd_nat [of "snd p" "map (\<lambda>c. length (possib c)) ?row"
        "length (possib (f (?row ! snd p)))"] assms(2)
    by (simp add: map_update)
  have "candidates (upd_cell g p f) + ?w ?row
        = candidates g + ?w (?row[snd p := f (?row ! snd p)])"
    using sum_list_upd_nat [of "fst p" "map ?w g" "?w (?row[snd p := f (?row ! snd p)])"] assms(1)
    by (simp add: candidates_def upd_cell_def map_update)
  with row show ?thesis by (simp add: cell_at_def)
qed

lemma candidates_upd_same:
  assumes "\<And>c. length (possib (f c)) = length (possib c)"
  shows "candidates (upd_cell g p f) = candidates g"
proof (cases "fst p < length g \<and> snd p < length (g ! fst p)")
  case True
  then show ?thesis using candidates_upd [of p g f] assms by simp
next
  case False
  then have "upd_cell g p f = g" by (rule upd_cell_beyond)
  then show ?thesis by simp
qed

lemma constraining_values_nonzero: "0 \<notin> set (constraining_values g target special)"
  by (auto simp: constraining_values_def special_constraining_values_def Let_def is_solved_def)

lemma reduce_loop_Inr:
  "value c = 0 \<Longrightarrow> 0 \<notin> set grp \<Longrightarrow>
   \<exists>c' r. reduce_loop c red grp = Inr (c', r) \<and> r_pos c' = r_pos c \<and> c_pos c' = c_pos c \<and>
     length (possib c') \<le> length (possib c) \<and> (r \<and> \<not> red \<longrightarrow> length (possib c') < length (possib c))"
proof (induction grp arbitrary: c red)
  case Nil
  then show ?case by simp
next
  case (Cons a grp)
  let ?c1 = "c\<lparr>possib := removeAll a (possib c)\<rparr>"
  let ?r1 = "if a \<in> set (possib c) then True else red"
  have c1: "(if a \<in> set (possib c) then ?c1 else c) = ?c1"
    by simp
  have ne: "\<not> eq_int c a" using Cons.prems by (auto simp: eq_int_def)
  have le: "length (possib ?c1) \<le> length (possib c)"
    by simp
  have lt: "a \<in> set (possib c) \<Longrightarrow> length (possib ?c1) < length (possib c)"
    by (simp add: length_removeAll_less)
  show ?case
  proof (cases "length (possib ?c1) = 1")
    case True
    have res: "reduce_loop c red (a # grp)
        = Inr (set_value (?c1\<lparr>possib := tl (possib ?c1)\<rparr>) (hd (possib ?c1)) True, ?r1)"
      using ne True unfolding reduce_loop.simps c1 Let_def by simp
    have "length (possib (set_value (?c1\<lparr>possib := tl (possib ?c1)\<rparr>) (hd (possib ?c1)) True))
          < length (possib c)" if "a \<in> set (possib c)"
      using that by (cases "possib c") (simp_all add: set_value_def)
    moreover have "length (possib (set_value (?c1\<lparr>possib := tl (possib ?c1)\<rparr>) (hd (possib ?c1)) True))
          \<le> length (possib c)"
      by (simp add: set_value_def)
    ultimately show ?thesis unfolding res
      by (auto simp: set_value_def)
  next
    case False
    have res: "reduce_loop c red (a # grp) = reduce_loop ?c1 ?r1 grp"
      using ne False unfolding reduce_loop.simps c1 Let_def by simp
    have "value ?c1 = 0" "0 \<notin> set grp" using Cons.prems by simp_all
    from Cons.IH [OF this, of ?r1]
    obtain c' r where ih: "reduce_loop ?c1 ?r1 grp = Inr (c', r)" "r_pos c' = r_pos ?c1"
      "c_pos c' = c_pos ?c1" "length (possib c') \<le> length (possib ?c1)"
      "r \<and> \<not> ?r1 \<longrightarrow> length (possib c') < length (possib ?c1)"
      by blast
    have "length (possib c') \<le> length (possib c)"
      using ih(4) le by (rule le_trans)
    moreover have "r \<and> \<not> red \<longrightarrow> length (possib c') < length (possib c)"
    proof (cases "a \<in> set (possib c)")
      case True
      then show ?thesis using ih(4) lt by simp
    next
      case False
      then show ?thesis using ih(5) by simp
    qed
    ultimately show ?thesis unfolding res using ih(1,2,3) by simp
  qed
qed

section \<open>Propagation never raises and ends\<close>

lemma reduce_cell_Inr:
  assumes "wf_grid g" and "in_range target"
  shows "\<exists>g1 r. reduce_cell g target special = Inr (g1, r) \<and> wf_grid g1 \<and>
           candidates g1 \<le> candidates g \<and> (r = Some True \<longrightarrow> candidates g1 < candidates g) \<and>
           (\<forall>q. q \<noteq> target \<longrightarrow> cell_at g1 q = cell_at g q) \<and>
           (is_solved (cell_at g target) \<longrightarrow> g1 = g)"
proof (cases "is_solved (cell_at g target)")
  case True
  then show ?thesis using assms by (simp add: reduce_cell_def)
next
  case False
  let ?c = "cell_at g target"
  let ?grp = "constraining_values g target special"
  have v: "value ?c = 0" using False by (simp add: is_solved_def)
  from reduce_loop_Inr [OF v constraining_values_nonzero [of g target special], of False]
  obtain c' r where res: "reduce_loop ?c False ?grp = Inr (c', r)"
    and le: "length (possib c') \<le> length (possib ?c)"
    and lt: "r \<and> \<not> False \<longrightarrow> length (possib c') < length (possib ?c)"
    by blast
  have rc: "reduce_cell g target special = Inr (upd_cell g target (\<lambda>_. c'), Some r)"
    using False res by (simp add: reduce_cell_def reduce_possibilities_def)
  have rng: "fst target < length g" "snd target < length (g ! fst target)"
    using wf_in_range [OF assms] by simp_all
  have cand: "candidates (upd_cell g target (\<lambda>_. c')) + length (possib ?c)
              = candidates g + length (possib c')"
    by (rule candidates_upd [OF rng])
  have "candidates (upd_cell g target (\<lambda>_. c')) \<le> candidates g"
    using cand le by linarith
  moreover have "r \<longrightarrow> candidates (upd_cell g target (\<lambda>_. c')) < candidates g"
    using cand lt by auto
  ultimately show ?thesis
    unfolding rc using assms(1) False by (simp add: cell_at_upd_other)
qed

lemma remove_cell_subset: "remove_cell g target ps = Inr ps' \<Longrightarrow> set ps' \<subseteq> set ps"
  by (induction ps arbitrary: ps') (auto split: if_splits sum.splits)

lemma remove_cell_found: "target \<in> set ps \<Longrightarrow> \<exists>ps'. remove_cell g target ps = Inr ps'"
  by (induction ps) auto

lemma remove_cell_Inr:
  "target \<in> set ps \<Longrightarrow> \<exists>ps'. remove_cell g target ps = Inr ps' \<and> set ps' \<subseteq> set ps"
  using remove_cell_found remove_cell_subset by blast

lemma sweep_Inr:
  "wf_board b \<Longrightarrow>
   \<exists>b' rs. sweep special b i reducing = Inr (b', reducing @ rs) \<and> wf_board b' \<and>
     length (unsolved_cells b') \<le> length (unsolved_cells b) \<and>
     candidates (grid b') \<le> candidates (grid b) \<and>
     (Some True \<in> set rs \<longrightarrow> candidates (grid b') < candidates (grid b))"
proof (induction special b i reducing rule: sweep.induct)
  case (1 special b i reducing)
  show ?case
  proof (cases "i < length (unsolved_cells b)")
    case False
    then have "sweep special b i reducing = Inr (b, reducing @ [])"
      by (subst sweep.simps) simp
    with "1.prems" show ?thesis by fastforce
  next
    case True
    let ?t = "unsolved_cells b ! i"
    have tin: "?t \<in> set (unsolved_cells b)" using True by simp
    then have rng: "in_range ?t" using "1.prems" by (simp add: wf_board_def)
    have wf: "wf_grid (grid b)" using "1.prems" by (simp add: wf_board_def)
    from reduce_cell_Inr [OF wf rng, of special]
    obtain g1 r where rc: "reduce_cell (grid b) ?t special = Inr (g1, r)"
      and wf1: "wf_grid g1" and le: "candidates g1 \<le> candidates (grid b)"
      and lt: "r = Some True \<longrightarrow> candidates g1 < candidates (grid b)"
      by blast
    show ?thesis
    proof (cases "is_solved (cell_at g1 ?t)")
      case solved: True
      from remove_cell_Inr [OF tin, of g1]
      obtain us where rm: "remove_cell g1 ?t (unsolved_cells b) = Inr us"
        and sub: "set us \<subseteq> set (unsolved_cells b)" by blast
      let ?b1 = "\<lparr>grid = g1, unsolved_cells = us\<rparr>"
      have step: "sweep special b i reducing = sweep special ?b1 (Suc i) (reducing @ [r])"
        using True rc solved rm by (subst sweep.simps) simp
      have wfb: "wf_board ?b1"
        using wf1 sub "1.prems" by (auto simp: wf_board_def)
      have len: "length us \<le> length (unsolved_cells b)"
        using remove_cell_length [OF rm] by simp
      from "1.IH"(1) [OF True refl rc refl solved rm wfb]
      obtain b' rs where ih: "sweep special ?b1 (Suc i) (reducing @ [r]) = Inr (b', (reducing @ [r]) @ rs)"
        "wf_board b'" "length (unsolved_cells b') \<le> length (unsolved_cells ?b1)"
        "candidates (grid b') \<le> candidates (grid ?b1)"
        "Some True \<in> set rs \<longrightarrow> candidates (grid b') < candidates (grid ?b1)"
        by blast
      have "sweep special b i reducing = Inr (b', reducing @ (r # rs))"
        using step ih(1) by simp
      moreover have "Some True \<in> set (r # rs) \<longrightarrow> candidates (grid b') < candidates (grid b)"
        using ih(4,5) le lt by auto
      ultimately show ?thesis
        using ih(2,3,4) le len by (intro exI [of _ b'] exI [of _ "r # rs"]) simp
    next
      case unsolved: False
      let ?b1 = "b\<lparr>grid := g1\<rparr>"
      have step: "sweep special b i reducing = sweep special ?b1 (Suc i) (reducing @ [r])"
        using True rc unsolved by (subst sweep.simps) simp
      have wfb: "wf_board ?b1"
        using wf1 "1.prems" by (auto simp: wf_board_def)
      from "1.IH"(2) [OF True refl rc refl unsolved wfb]
      obtain b' rs where ih: "sweep special ?b1 (Suc i) (reducing @ [r]) = Inr (b', (reducing @ [r]) @ rs)"
        "wf_board b'" "length (unsolved_cells b') \<le> length (unsolved_cells ?b1)"
        "candidates (grid b') \<le> candidates (grid ?b1)"
        "Some True \<in> set rs \<longrightarrow> candidates (grid b') < candidates (grid ?b1)"
        by blast
      have "sweep special b i reducing = Inr (b', reducing @ (r # rs))"
        using step ih(1) by simp
      moreover have "Some True \<in> set (r # rs) \<longrightarrow> candidates (grid b') < candidates (grid b)"
        using ih(4,5) le lt by auto
      ultimately show ?thesis
        using ih(2,3,4) le by (intro exI [of _ b'] exI [of _ "r # rs"]) simp
    qed
  qed
qed

lemma reduce_cells_Some:
  "wf_board b \<Longrightarrow> candidates (grid b) < n \<Longrightarrow>
   \<exists>b'. reduce_cells n special b = Some (Inr b') \<and> wf_board b' \<and>
     length (unsolved_cells b') \<le> length (unsolved_cells b) \<and>
     candidates (grid b') \<le> candidates (grid b)"
proof (induction n arbitrary: b)
  case 0
  then show ?case by simp
next
  case (Suc n)
  show ?case
  proof (cases "all_solved b")
    case True
    with Suc.prems show ?thesis by simp
  next
    case False
    from sweep_Inr [OF Suc.prems(1), of special 0 "[]"]
    obtain b1 rs where sw: "sweep special b 0 [] = Inr (b1, rs)" and wf1: "wf_board b1"
      and len: "length (unsolved_cells b1) \<le> length (unsolved_cells b)"
      and le: "candidates (grid b1) \<le> candidates (grid b)"
      and lt: "Some True \<in> set rs \<longrightarrow> candidates (grid b1) < candidates (grid b)"
      by auto
    show ?thesis
    proof (cases "Some True \<in> set rs")
      case True
      with lt Suc.prems(2) have "candidates (grid b1) < n" by simp
      from Suc.IH [OF wf1 this]
      obtain b' where ih: "reduce_cells n special b1 = Some (Inr b')" "wf_board b'"
        "length (unsolved_cells b') \<le> length (unsolved_cells b1)"
        "candidates (grid b') \<le> candidates (grid b1)"
        by blast
      have "reduce_cells (Suc n) special b = Some (Inr b')"
        using False sw True ih(1) by (subst reduce_cells.simps) simp
      with ih len le show ?thesis by auto
    next
      case no: False
      have "reduce_cells (Suc n) special b = Some (Inr b1)"
        using False sw no by (subst reduce_cells.simps) simp
      with wf1 len le show ?thesis by auto
    qed
  qed
qed

lemma magic_total:
  "length mid \<le> n \<longrightarrow>
     (\<exists>ok g' mid'. brute_force_magic_square n g mid = Some (ok, g', mid') \<and> (\<not> ok \<longrightarrow> mid' = mid) \<and>
        wf_grid g' = wf_grid g \<and> candidates g' = candidates g)"
  "length mid \<le> n \<longrightarrow>
     (\<exists>ok g' mid'. magic_values n g cell mid vs = Some (ok, g', mid') \<and> (\<not> ok \<longrightarrow> mid' = cell # mid) \<and>
        wf_grid g' = wf_grid g \<and> candidates g' = candidates g)"
proof (induction n g mid and n g cell mid vs rule: brute_force_magic_square_magic_values.induct)
  case (1 n g)
  then show ?case by auto
next
  case (2 g cell mid_square)
  then show ?case by auto
next
  case (3 n g cell mid_square)
  then show ?case by auto
next
  case (4 n g cell mid_square)
  then show ?case by auto
next
  case (5 n g cell mid_square v vs)
  show ?case
  proof
    assume len: "length mid_square \<le> n"
    show "\<exists>ok g' mid'. magic_values n g cell mid_square (v # vs) = Some (ok, g', mid') \<and>
        (\<not> ok \<longrightarrow> mid' = cell # mid_square) \<and> wf_grid g' = wf_grid g \<and> candidates g' = candidates g"
    proof (cases "check_magic_square_state g \<and> check_cell_possib g cell v True")
      case False
      then have "magic_values n g cell mid_square (v # vs) = magic_values n g cell mid_square vs"
        by auto
      with "5.IH"(3) [OF False] len show ?thesis by auto
    next
      case True
      let ?g0 = "upd_cell g cell (\<lambda>c. set_value c v False)"
      have c0: "candidates ?g0 = candidates g"
        by (rule candidates_upd_same) (simp add: set_value_def)
      from "5.IH"(1) [OF True] len
      obtain ok g1 mid1 where r1: "brute_force_magic_square n ?g0 mid_square = Some (ok, g1, mid1)"
        and m1: "\<not> ok \<longrightarrow> mid1 = mid_square" and w1: "wf_grid g1 = wf_grid ?g0"
        and c1: "candidates g1 = candidates ?g0"
        by blast
      show ?thesis
      proof (cases ok)
        case ok: True
        have "magic_values n g cell mid_square (v # vs) = Some (True, g1, mid1)"
          using True r1 ok by simp
        with w1 c1 c0 show ?thesis by auto
      next
        case fail: False
        let ?g2 = "upd_cell g1 cell (\<lambda>c. c\<lparr>value := 0\<rparr>)"
        have c2: "candidates ?g2 = candidates g1"
          by (rule candidates_upd_same) simp
        have step: "magic_values n g cell mid_square (v # vs) = magic_values n ?g2 cell mid1 vs"
          using True r1 fail by simp
        have "length mid1 \<le> n" using m1 fail len by simp
        with "5.IH"(2) [OF True r1 refl refl fail]
        obtain ok' g' mid' where r2: "magic_values n ?g2 cell mid1 vs = Some (ok', g', mid')"
          and m2: "\<not> ok' \<longrightarrow> mid' = cell # mid1" and w2: "wf_grid g' = wf_grid ?g2"
          and c2': "candidates g' = candidates ?g2"
          by blast
        show ?thesis
          unfolding step r2 using m1 m2 fail w1 w2 c0 c1 c2 c2' by auto
      qed
    qed
  qed
qed

section \<open>Backtracking\<close>

lemma brute_total:
  "length (unsolved_cells b) \<le> n \<longrightarrow>
     (\<exists>ok b'. brute_force n special b = Some (ok, b') \<and>
        (\<not> ok \<longrightarrow> unsolved_cells b' = unsolved_cells b) \<and>
        wf_grid (grid b') = wf_grid (grid b))"
  "length (unsolved_cells b) \<le> k \<longrightarrow>
     (\<exists>ok b'. brute_values k special b cell vs = Some (ok, b') \<and>
        (\<not> ok \<longrightarrow> unsolved_cells b' = cell # unsolved_cells b) \<and>
        wf_grid (grid b') = wf_grid (grid b))"
proof (induction n special b and k special b cell vs rule: brute_force_brute_values.induct)
  case (1 n special b)
  show ?case
  proof (cases "unsolved_cells b")
    case Nil
    then show ?thesis by auto
  next
    case (Cons cell rest)
    show ?thesis
    proof
      assume len: "length (unsolved_cells b) \<le> n"
      then obtain k where n: "n = Suc k" using Cons by (cases n) auto
      let ?b0 = "b\<lparr>unsolved_cells := rest\<rparr>"
      have "length (unsolved_cells ?b0) \<le> k" using len Cons n by simp
      with "1.IH" [OF Cons n]
      obtain ok b' where r: "brute_values k special ?b0 cell (possib (cell_at (grid b) cell)) = Some (ok, b')"
        and f: "\<not> ok \<longrightarrow> unsolved_cells b' = cell # unsolved_cells ?b0"
        and w: "wf_grid (grid b') = wf_grid (grid ?b0)"
        by blast
      have "brute_force n special b = Some (ok, b')"
        using Cons n r by simp
      with f w Cons show "\<exists>ok b'. brute_force n special b = Some (ok, b') \<and>
        (\<not> ok \<longrightarrow> unsolved_cells b' = unsolved_cells b) \<and> wf_grid (grid b') = wf_grid (grid b)"
        by auto
    qed
  qed
next
  case (2 k special b cell)
  then show ?case by auto
next
  case (3 k special b cell v vs)
  show ?case
  proof
    assume len: "length (unsolved_cells b) \<le> k"
    show "\<exists>ok b'. brute_values k special b cell (v # vs) = Some (ok, b') \<and>
        (\<not> ok \<longrightarrow> unsolved_cells b' = cell # unsolved_cells b) \<and> wf_grid (grid b') = wf_grid (grid b)"
    proof (cases "check_cell_possib (grid b) cell v special")
      case False
      then have "brute_values k special b cell (v # vs) = brute_values k special b cell vs"
        by simp
      with "3.IH"(3) [OF False] len show ?thesis by auto
    next
      case True
      let ?b0 = "b\<lparr>grid := upd_cell (grid b) cell (\<lambda>c. set_value c v False)\<rparr>"
      from "3.IH"(1) [OF True] len
      obtain ok b1 where r1: "brute_force k special ?b0 = Some (ok, b1)"
        and f1: "\<not> ok \<longrightarrow> unsolved_cells b1 = unsolved_cells ?b0"
        and w1: "wf_grid (grid b1) = wf_grid (grid ?b0)"
        by auto
      show ?thesis
      proof (cases ok)
        case ok: True
        have "brute_values k special b cell (v # vs) = Some (True, b1)"
          using True r1 ok by simp
        with w1 show ?thesis by auto
      next
        case fail: False
        let ?b2 = "b1\<lparr>grid := upd_cell (grid b1) cell (\<lambda>c. c\<lparr>value := 0\<rparr>)\<rparr>"
        have step: "brute_values k special b cell (v # vs) = brute_values k special ?b2 cell vs"
          using True r1 fail by simp
        have "length (unsolved_cells ?b2) \<le> k" using f1 fail len by simp
        with "3.IH"(2) [OF True r1 refl fail]
        obtain ok' b' where r2: "brute_values k special ?b2 cell vs = Some (ok', b')"
          and f2: "\<not> ok' \<longrightarrow> unsolved_cells b' = cell # unsolved_cells ?b2"
          and w2: "wf_grid (grid b') = wf_grid (grid ?b2)"
          by blast
        show ?thesis
          unfolding step r2 using f1 f2 fail w1 w2 by auto
      qed
    qed
  qed
qed

lemma upd_cell_compose: "upd_cell (upd_cell g p f) p h = upd_cell g p (\<lambda>c. h (f c))"
proof (cases "fst p < length g \<and> snd p < length (g ! fst p)")
  case True
  then show ?thesis by (simp add: upd_cell_def)
next
  case False
  then show ?thesis by (simp add: upd_cell_beyond)
qed

lemma upd_cell_id: "f (cell_at g p) = cell_at g p \<Longrightarrow> upd_cell g p f = g"
  by (simp add: upd_cell_def cell_at_def)

lemma upd_cell_reset:
  assumes "\<not> is_solved (cell_at g p)"
  shows "upd_cell (upd_cell g p (\<lambda>c. set_value c v False)) p (\<lambda>c. c\<lparr>value := 0\<rparr>) = g"
proof -
  have "(cell_at g p)\<lparr>value := v, value := 0\<rparr> = cell_at g p"
    using assms by (simp add: is_solved_def)
  then show ?thesis
    unfolding upd_cell_compose by (intro upd_cell_id) (simp add: set_value_def)
qed

lemma brute_restore:
  "brute_force n special b = Some (False, b') \<longrightarrow> clean b \<longrightarrow> b' = b"
  "brute_values k special b cell vs = Some (False, b') \<longrightarrow> clean b \<longrightarrow>
     cell \<notin> set (unsolved_cells b) \<longrightarrow> \<not> is_solved (cell_at (grid b) cell) \<longrightarrow>
     b' = b\<lparr>unsolved_cells := cell # unsolved_cells b\<rparr>"
proof (induction n special b and k special b cell vs arbitrary: b' and b'
    rule: brute_force_brute_values.induct)
  case (1 n special b)
  show ?case
  proof (intro impI)
    assume res: "brute_force n special b = Some (False, b')" and cl: "clean b"
    from res obtain cell rest where fr: "unsolved_cells b = cell # rest"
      by (cases "unsolved_cells b") auto
    from res fr obtain k where n: "n = Suc k" by (cases n) auto
    let ?b0 = "b\<lparr>unsolved_cells := rest\<rparr>"
    have r: "brute_values k special ?b0 cell (possib (cell_at (grid b) cell)) = Some (False, b')"
      using res fr n by simp
    have "clean ?b0" "cell \<notin> set (unsolved_cells ?b0)" "\<not> is_solved (cell_at (grid ?b0) cell)"
      using cl fr by (auto simp: clean_def)
    with "1.IH" [OF fr n, of b'] r have "b' = ?b0\<lparr>unsolved_cells := cell # unsolved_cells ?b0\<rparr>"
      by blast
    then show "b' = b" using fr by simp
  qed
next
  case (2 k special b cell)
  then show ?case by auto
next
  case (3 k special b cell v vs)
  show ?case
  proof (intro impI)
    assume res: "brute_values k special b cell (v # vs) = Some (False, b')" and cl: "clean b"
      and notin: "cell \<notin> set (unsolved_cells b)" and uns: "\<not> is_solved (cell_at (grid b) cell)"
    show "b' = b\<lparr>unsolved_cells := cell # unsolved_cells b\<rparr>"
    proof (cases "check_cell_possib (grid b) cell v special")
      case False
      then have "brute_values k special b cell vs = Some (False, b')"
        using res by simp
      with "3.IH"(3) [OF False, of b'] cl notin uns show ?thesis by blast
    next
      case True
      let ?b0 = "b\<lparr>grid := upd_cell (grid b) cell (\<lambda>c. set_value c v False)\<rparr>"
      from res True obtain ok b1 where r1: "brute_force k special ?b0 = Some (ok, b1)"
        by (cases "brute_force k special ?b0") auto
      have fail: "\<not> ok" using res True r1 by (cases ok) auto
      have "cell_at (grid ?b0) p = cell_at (grid b) p" if "p \<in> set (unsolved_cells b)" for p
      proof -
        from that notin have "p \<noteq> cell" by blast
        then show ?thesis by (simp add: cell_at_upd_other)
      qed
      then have cl0: "clean ?b0"
        using cl by (simp add: clean_def)
      with "3.IH"(1) [OF True, of b1] r1 fail have b1: "b1 = ?b0" by simp
      let ?b2 = "b1\<lparr>grid := upd_cell (grid b1) cell (\<lambda>c. c\<lparr>value := 0\<rparr>)\<rparr>"
      have b2: "?b2 = b"
        unfolding b1 using upd_cell_reset [OF uns] by simp
      have "brute_values k special ?b2 cell vs = Some (False, b')"
        using res True r1 fail by simp
      with "3.IH"(2) [OF True r1 refl fail, of b'] cl notin uns show ?thesis
        unfolding b2 by blast
    qed
  qed
qed

section \<open>Boards built from an input\<close>

lemma length_concat_filter_le:
  "length [f c. row \<leftarrow> xs, c \<leftarrow> row, P c] \<le> length (concat xs)"
proof (induction xs)
  case Nil
  then show ?case by simp
next
  case (Cons row xs)
  have "length (concat (map (\<lambda>c. if P c then [f c] else []) row)) \<le> length row"
    by (induction row) auto
  with Cons show ?case by simp
qed

lemma set_concat_filter:
  "set [f c. row \<leftarrow> xs, c \<leftarrow> row, P c] = {f c |row c. row \<in> set xs \<and> c \<in> set row \<and> P c}"
  by auto

lemma sum_list_bounded:
  fixes f :: "'a \<Rightarrow> nat"
  shows "\<forall>x \<in> set xs. f x \<le> k \<Longrightarrow> sum_list (map f xs) \<le> length xs * k"
  by (induction xs) auto

lemma length_concat_if_le:
  "length (concat (map (\<lambda>x. if P x then [f x] else []) xs)) \<le> length xs"
  by (induction xs) auto

lemma concat_if_filter:
  "concat (map (\<lambda>k. if P k then [f k] else []) ys) = map f (filter P ys)"
  by (induction ys) auto

lemma refs_product:
  "concat (map (\<lambda>r. concat (map (\<lambda>k. if P r k then [(r, k)] else []) ys)) xs)
   = filter (\<lambda>p. P (fst p) (snd p)) (List.product xs ys)"
  by (induction xs) (auto simp: concat_if_filter filter_map comp_def)

lemma Cell_possib_length: "length (possib (Cell r c v)) \<le> 9"
  using length_concat_if_le [of "\<lambda>x. x + 1 \<noteq> v" "\<lambda>x. x + 1" "map int [0..<9]"]
  by (simp add: Cell_def del: upt_Suc)

lemma candidates_parsed:
  "candidates (map (\<lambda>r. map (\<lambda>c. Cell r c (g ! (9 * r + c))) [0..<9]) [0..<9]) \<le> 729"
proof -
  let ?gr = "map (\<lambda>r. map (\<lambda>c. Cell r c (g ! (9 * r + c))) [0..<9]) [0..<9]"
  have row: "sum_list (map (\<lambda>c. length (possib c)) row) \<le> 81" if "row \<in> set ?gr" for row
  proof -
    have "\<forall>c \<in> set row. length (possib c) \<le> 9"
      using that Cell_possib_length by auto
    from sum_list_bounded [OF this] have "sum_list (map (\<lambda>c. length (possib c)) row) \<le> length row * 9" .
    moreover have "length row = 9" using that by auto
    ultimately show ?thesis by simp
  qed
  then have "\<forall>row \<in> set ?gr. sum_list (map (\<lambda>c. length (possib c)) row) \<le> 81" by blast
  from sum_list_bounded [OF this] have "candidates ?gr \<le> length ?gr * 81"
    unfolding candidates_def .
  then show ?thesis by simp
qed

lemma Sudoku_wf:
  assumes "Sudoku g = Inr b"
  shows "wf_board b \<and> length (unsolved_cells b) \<le> 81 \<and> candidates (grid b) \<le> 729 \<and> clean b"
proof -
  let ?gr = "map (\<lambda>r. map (\<lambda>c. Cell r c (g ! (9 * r + c))) [0..<9]) [0..<9]"
  from assms have len: "81 \<le> length g"
    by (auto simp: Sudoku_def parse_grid_def split: if_splits)
  from Sudoku_Inr [OF len] assms have wf: "wf_grid (grid b)" and gr: "grid b = ?gr"
    and fr: "unsolved_cells b = [ref c. row \<leftarrow> grid b, c \<leftarrow> row, \<not> is_solved c]"
    by auto
  have cells: "\<exists>r k. r < 9 \<and> k < 9 \<and> c = Cell r k (g ! (9 * r + k))"
    if "row \<in> set (grid b)" "c \<in> set row" for row c
    using that unfolding gr by auto blast
  have rng: "\<forall>p \<in> set (unsolved_cells b). in_range p"
    unfolding fr set_concat_filter using cells by (fastforce simp: in_range_def ref_def Cell_def)
  have "length (unsolved_cells b) \<le> length (concat (grid b))"
    unfolding fr by (rule length_concat_filter_le)
  also have "\<dots> = 81"
    using wf length_concat_uniform [of "grid b" 9] by (simp add: wf_grid_def)
  finally have l: "length (unsolved_cells b) \<le> 81" .
  have c: "candidates (grid b) \<le> 729" unfolding gr by (rule candidates_parsed)
  have at: "cell_at (grid b) (r, k) = Cell r k (g ! (9 * r + k))" if "r < 9" "k < 9" for r k
    using that unfolding gr cell_at_def by simp
  have uns: "\<forall>p \<in> set (unsolved_cells b). \<not> is_solved (cell_at (grid b) p)"
  proof
    fix p assume "p \<in> set (unsolved_cells b)"
    then obtain row c where "row \<in> set (grid b)" "c \<in> set row" "\<not> is_solved c" "p = ref c"
      unfolding fr set_concat_filter by blast
    moreover from cells [OF this(1,2)] obtain r k where "r < 9" "k < 9" "c = Cell r k (g ! (9 * r + k))"
      by blast
    ultimately show "\<not> is_solved (cell_at (grid b) p)"
      using at by (simp add: ref_def Cell_def)
  qed
  have refs: "[ref c. row \<leftarrow> ?gr, c \<leftarrow> row, \<not> is_solved c]
      = concat (map (\<lambda>r. concat (map (\<lambda>k. if g ! (9 * r + k) = 0 then [(r, k)] else []) [0..<9])) [0..<9])"
    by (simp add: Cell_def ref_def is_solved_def comp_def del: upt_Suc cong: if_cong)
  have "distinct (unsolved_cells b)"
    unfolding fr gr refs refs_product
    by (intro distinct_filter distinct_product) simp_all
  with rng l c uns wf show ?thesis by (simp add: wf_board_def clean_def)
qed

section \<open>Runs of \<open>solve\<close>\<close>

lemma mid_square_length: "length (concat (get_mid_square g)) \<le> 9"
proof -
  have "\<forall>row \<in> set (get_mid_square g). length row \<le> 3"
    by (auto simp: get_mid_square_def)
  from sum_list_bounded [OF this]
  have "length (concat (get_mid_square g)) \<le> length (get_mid_square g) * 3"
    by (simp add: length_concat)
  moreover have "length (get_mid_square g) \<le> 3"
    by (simp add: get_mid_square_def)
  ultimately show ?thesis by simp
qed

lemma solve_magic_square_Some:
  assumes "9 \<le> m"
  shows "\<exists>b2. solve_magic_square m b = Some b2 \<and> unsolved_cells b2 = unsolved_cells b \<and>
           wf_grid (grid b2) = wf_grid (grid b) \<and> candidates (grid b2) = candidates (grid b)"
proof -
  let ?mid = "[ref c. row \<leftarrow> get_mid_square (grid b), c \<leftarrow> row, \<not> is_solved c]"
  have "length ?mid \<le> length (concat (get_mid_square (grid b)))"
    by (rule length_concat_filter_le)
  with mid_square_length [of "grid b"] assms have "length ?mid \<le> m" by simp
  with magic_total(1) [of ?mid m "grid b"]
  obtain ok g' mid' where r: "brute_force_magic_square m (grid b) ?mid = Some (ok, g', mid')"
    and w: "wf_grid g' = wf_grid (grid b)" and c: "candidates g' = candidates (grid b)"
    by blast
  have "solve_magic_square m b = Some (b\<lparr>grid := g'\<rparr>)"
    unfolding solve_magic_square_def Let_def r by simp
  with w c show ?thesis by simp
qed

lemma magic_wf:
  "brute_force_magic_square n g mid = Some (ok, g', mid') \<longrightarrow> wf_grid g' = wf_grid g"
  "magic_values n g cell mid vs = Some (ok, g', mid') \<longrightarrow> wf_grid g' = wf_grid g"
proof (induction n g mid and n g cell mid vs arbitrary: ok g' mid' and ok g' mid'
    rule: brute_force_magic_square_magic_values.induct)
  case (5 n g cell mid_square v vs)
  show ?case
  proof (cases "check_magic_square_state g \<and> check_cell_possib g cell v True")
    case False
    with "5.IH"(3) [OF False, of ok g' mid'] show ?thesis by auto
  next
    case True
    let ?g0 = "upd_cell g cell (\<lambda>c. set_value c v False)"
    show ?thesis
    proof
      assume res: "magic_values n g cell mid_square (v # vs) = Some (ok, g', mid')"
      then obtain ok1 g1 mid1 where r1: "brute_force_magic_square n ?g0 mid_square = Some (ok1, g1, mid1)"
        using True by (cases "brute_force_magic_square n ?g0 mid_square") auto
      from "5.IH"(1) [OF True, of ok1 g1 mid1] r1 have w1: "wf_grid g1 = wf_grid g" by simp
      show "wf_grid g' = wf_grid g"
      proof (cases ok1)
        case True
        with res \<open>check_magic_square_state g \<and> check_cell_possib g cell v True\<close> r1 w1
        show ?thesis by simp
      next
        case False
        with res True r1
        have "magic_values n (upd_cell g1 cell (\<lambda>c. c\<lparr>value := 0\<rparr>)) cell mid1 vs = Some (ok, g', mid')"
          by simp
        with "5.IH"(2) [OF True r1 refl refl False, of ok g' mid'] w1 show ?thesis by simp
      qed
    qed
  qed
qed auto

lemma solve_magic_square_wf:
  "solve_magic_square m b = Some b2 \<Longrightarrow> wf_board b \<Longrightarrow> wf_board b2"
  using magic_wf(1)
  by (fastforce simp: solve_magic_square_def Let_def wf_board_def split: option.splits)

lemma reduce_cells_no_error:
  "wf_board b \<Longrightarrow> reduce_cells n special b = Some r \<Longrightarrow> \<exists>b'. r = Inr b' \<and> wf_board b'"
proof (induction n arbitrary: b)
  case 0
  then show ?case by (auto split: if_splits)
next
  case (Suc n)
  show ?case
  proof (cases "all_solved b")
    case True
    with Suc.prems show ?thesis by auto
  next
    case False
    from sweep_Inr [OF Suc.prems(1), of special 0 "[]"]
    obtain b1 rs where sw: "sweep special b 0 [] = Inr (b1, rs)" and wf1: "wf_board b1"
      by auto
    show ?thesis
    proof (cases "Some True \<in> set rs")
      case True
      have "reduce_cells (Suc n) special b = reduce_cells n special b1"
        using False sw True by (subst reduce_cells.simps) simp
      with Suc.IH [OF wf1] Suc.prems(2) show ?thesis by auto
    next
      case no: False
      have "reduce_cells (Suc n) special b = Some (Inr b1)"
        using False sw no by (subst reduce_cells.simps) simp
      with wf1 Suc.prems(2) show ?thesis by auto
    qed
  qed
qed

lemma solve_never_raises:
  assumes "wf_board b"
  shows "solve n m k special b \<noteq> Some (Inl e)"
proof
  assume res: "solve n m k special b = Some (Inl e)"
  then obtain r1 where r1: "reduce_cells n special b = Some r1"
    by (cases "reduce_cells n special b") (auto simp: solve_def)
  from reduce_cells_no_error [OF assms r1] obtain b1 where b1: "r1 = Inr b1" "wf_board b1"
    by blast
  show False
  proof (cases special)
    case False
    with res r1 b1 show False by (auto simp: solve_def)
  next
    case True
    with res r1 b1 obtain b2 where b2: "solve_magic_square m b1 = Some b2"
      by (cases "solve_magic_square m b1") (auto simp: solve_def)
    from solve_magic_square_wf [OF b2 b1(2)] have wf2: "wf_board b2" .
    from res r1 b1 True b2 obtain r3 where r3: "reduce_cells n True b2 = Some r3"
      by (cases "reduce_cells n True b2") (auto simp: solve_def)
    from reduce_cells_no_error [OF wf2 r3] obtain b3 where "r3 = Inr b3" by blast
    with res r1 b1 True b2 r3 show False by (auto simp: solve_def)
  qed
qed

lemma solve_total:
  assumes "wf_board b" and "candidates (grid b) \<le> 729" and "length (unsolved_cells b) \<le> 81"
    and "730 \<le> n" and "9 \<le> m" and "81 \<le> k"
  shows "\<exists>b'. solve n m k special b = Some (Inr b')"
proof -
  have "candidates (grid b) < n" using assms by simp
  from reduce_cells_Some [OF assms(1) this, of special]
  obtain b1 where r1: "reduce_cells n special b = Some (Inr b1)" and wf1: "wf_board b1"
    and l1: "length (unsolved_cells b1) \<le> length (unsolved_cells b)"
    and c1: "candidates (grid b1) \<le> candidates (grid b)"
    by blast
  show ?thesis
  proof (cases special)
    case False
    have "length (unsolved_cells b1) \<le> k" using l1 assms by simp
    with brute_total(1) [of b1 k special]
    obtain ok b' where "brute_force k special b1 = Some (ok, b')" by blast
    with r1 False show ?thesis by (simp add: solve_def)
  next
    case True
    from solve_magic_square_Some [OF assms(5), of b1]
    obtain b2 where r2: "solve_magic_square m b1 = Some b2"
      and u2: "unsolved_cells b2 = unsolved_cells b1"
      and w2: "wf_grid (grid b2) = wf_grid (grid b1)"
      and c2: "candidates (grid b2) = candidates (grid b1)"
      by blast
    have wf2: "wf_board b2" using wf1 u2 w2 by (simp add: wf_board_def)
    have "candidates (grid b2) < n" using c2 c1 assms by simp
    from reduce_cells_Some [OF wf2 this, of True]
    obtain b3 where r3: "reduce_cells n True b2 = Some (Inr b3)"
      and l3: "length (unsolved_cells b3) \<le> length (unsolved_cells b2)"
      by blast
    have "length (unsolved_cells b3) \<le> k" using l3 u2 l1 assms by simp
    with brute_total(1) [of b3 k True]
    obtain ok b' where "brute_force k True b3 = Some (ok, b')" by blast
    with r1 True r2 r3 show ?thesis by (simp add: solve_def)
  qed
qed

text \<open>
  C9: on every input of 81 values \<open>solve\<close> ends, in either mode, within 730 sweeps of
  each propagation loop (a sweep that asks for another one removes a candidate, and there
  are at most 729), a magic-square recursion of depth 9 and a backtracking recursion of
  depth 81.
\<close>

theorem solve_terminates:
  assumes "length g = 81" and "730 \<le> n" and "9 \<le> m" and "81 \<le> k"
  shows "\<exists>b b'. Sudoku g = Inr b \<and> solve n m k special b = Some (Inr b')"
proof -
  from Sudoku_Inr [of g] assms(1) obtain b where b: "Sudoku g = Inr b" by auto
  from Sudoku_wf [OF b] have "wf_board b" "candidates (grid b) \<le> 729" "length (unsolved_cells b) \<le> 81"
    by simp_all
  from solve_total [OF this assms(2,3,4)] b show ?thesis by blast
qed

theorem solve_terminates_witness:
  "\<exists>b b'. Sudoku sample_grid = Inr b \<and> solve 730 9 81 True b = Some (Inr b')"
  by (rule solve_terminates) (simp_all add: sample_grid_def)

text \<open>
  C6, as stated: whenever \<open>__brute_force\<close> fails, all cell values are as at entry. On
  \<open>stale_grid\<close> in special mode the search is entered with the solved cell (3, 4), value
  7, still in the frontier; the search fails and leaves that cell at 0.
\<close>

theorem brute_force_failure_counterexample:
  "(case Sudoku stale_grid of
      Inl e \<Rightarrow> False
    | Inr b \<Rightarrow>
       (case reduce_cells 730 True b of
          Some (Inr b1) \<Rightarrow>
            (case solve_magic_square 9 b1 of
               Some b2 \<Rightarrow>
                 (case reduce_cells 730 True b2 of
                    Some (Inr b3) \<Rightarrow>
                      (case brute_force 81 True b3 of
                         Some (ok, b') \<Rightarrow>
                           \<not> ok \<and> unsolved_cells b3 = [(3, 4), (3, 6)] \<and>
                           unsolved_cells b' = [(3, 4), (3, 6)] \<and>
                           value (cell_at (grid b3) (3, 4)) = 7 \<and>
                           value (cell_at (grid b') (3, 4)) = 0
                       | None \<Rightarrow> False)
                  | _ \<Rightarrow> False)
             | None \<Rightarrow> False)
        | _ \<Rightarrow> False))"
  by code_simp

text \<open>
  C6, amended: when \<open>__brute_force\<close> is entered with a frontier of distinct references
  to unsolved cells and fails, the board (every cell and the frontier, in order) is as at
  entry.
\<close>

theorem brute_force_failure_restores:
  assumes "distinct (unsolved_cells b)"
    and "\<forall>p \<in> set (unsolved_cells b). \<not> is_solved (cell_at (grid b) p)"
    and "brute_force n special b = Some (False, b')"
  shows "b' = b"
  using brute_restore(1) [of n special b b'] assms by (simp add: clean_def)

theorem brute_force_failure_restores_witness:
  "distinct (unsolved_cells (the (propagate 730 False stale_grid))) \<and>
   unsolved_cells (the (propagate 730 False stale_grid)) = [(3, 3), (3, 4), (3, 5), (3, 6)] \<and>
   brute_force 81 False (the (propagate 730 False stale_grid))
     = Some (False, the (propagate 730 False stale_grid))"
proof -
  let ?b = "the (propagate 730 False stale_grid)"
  have h1: "distinct (unsolved_cells ?b)" by code_simp
  have h2: "\<forall>p \<in> set (unsolved_cells ?b). \<not> is_solved (cell_at (grid ?b) p)" by code_simp
  have fr: "unsolved_cells ?b = [(3, 3), (3, 4), (3, 5), (3, 6)]" by code_simp
  have "case brute_force 81 False ?b of None \<Rightarrow> False | Some (ok, b') \<Rightarrow> \<not> ok" by code_simp
  then obtain b' where h3: "brute_force 81 False ?b = Some (False, b')"
    by (auto split: option.splits)
  from brute_force_failure_restores [OF h1 h2 h3] h1 fr h3 show ?thesis by simp
qed

section \<open>The frontier during propagation\<close>


lemma reduce_cell_other:
  "reduce_cell g t special = Inr (g1, r) \<Longrightarrow> q \<noteq> t \<Longrightarrow> cell_at g1 q = cell_at g q"
  by (auto simp: reduce_cell_def cell_at_upd_other split: if_splits sum.splits)

lemma reduce_cell_solved_same:
  "reduce_cell g t special = Inr (g1, r) \<Longrightarrow> is_solved (cell_at g t) \<Longrightarrow> g1 = g"
  by (auto simp: reduce_cell_def split: if_splits sum.splits)












section \<open>Consistency of the grid\<close>

lemma in_all_refs: "p \<in> set all_refs \<longleftrightarrow> fst p < 9 \<and> snd p < 9"
  by (cases p) (simp add: all_refs_def)

lemma units_cases:
  assumes "u \<in> set units"
  obtains r where "r < 9" "u = row_refs r"
  | c where "c < 9" "u = col_refs c"
  | br bc where "br < 3" "bc < 3" "u = box_refs br bc"
  using assms unfolding units_def by auto

lemma in_comprehension2:
  "r \<in> set rs \<Longrightarrow> c \<in> set cs \<Longrightarrow> P r c \<Longrightarrow> f r c \<in> set [f r c. r \<leftarrow> rs, c \<leftarrow> cs, P r c]"
  by auto

lemma row_in_group:
  assumes "wf_grid g" and "refs_ok g" and "r < 9" and "c1 < 9" and "c2 < 9" and "c2 \<noteq> c1"
    and "is_solved (cell_at g (r, c2))"
  shows "value (cell_at g (r, c2)) \<in> set (constraining_values g (r, c1) special)"
proof -
  let ?c = "g ! r ! c2"
  have "length (g ! r) = 9" using assms(1,3) by (simp add: wf_grid_def)
  then have mem: "?c \<in> set (g ! r)" using assms(5) by simp
  have "(r, c2) \<in> set all_refs" using assms(3,5) by (simp add: in_all_refs)
  with assms(2) have "ref (cell_at g (r, c2)) = (r, c2)" unfolding refs_ok_def by blast
  then have "ref ?c = (r, c2)" by (simp add: cell_at_def)
  then have "ref ?c \<noteq> (r, c1)" using assms(6) by simp
  moreover have "is_solved ?c" using assms(7) by (simp add: cell_at_def)
  ultimately have "value ?c \<in> set [value c. c \<leftarrow> g ! r, ref c \<noteq> (r, c1) \<and> is_solved c]"
    using mem by auto
  then show ?thesis
    by (simp add: constraining_values_def Let_def cell_at_def del: upt_Suc)
qed

lemma col_in_group:
  assumes "r1 < 9" and "r2 < 9" and "r2 \<noteq> r1" and "is_solved (cell_at g (r2, c))"
  shows "value (cell_at g (r2, c)) \<in> set (constraining_values g (r1, c) special)"
proof -
  have "value (g ! r2 ! c) \<in> set [value (g ! r ! c). r \<leftarrow> [0..<9], r \<noteq> r1 \<and> is_solved (g ! r ! c)]"
    using assms by (auto simp: cell_at_def simp del: upt_Suc)
  then show ?thesis
    by (simp add: constraining_values_def Let_def cell_at_def del: upt_Suc)
qed

lemma box_in_group:
  assumes "i < 3" and "j < 3" and "i' < 3" and "j' < 3" and "(i', j') \<noteq> (i, j)"
    and "is_solved (cell_at g (3 * br + i', 3 * bc + j'))"
  shows "value (cell_at g (3 * br + i', 3 * bc + j'))
         \<in> set (constraining_values g (3 * br + i, 3 * bc + j) special)"
proof -
  have rs: "(3 * br + i) div 3 * 3 = 3 * br" and cs: "(3 * bc + j) div 3 * 3 = 3 * bc"
    using assms(1,2) by simp_all
  let ?r = "3 * br + i'" and ?c = "3 * bc + j'"
  have m: "?r \<in> set [3 * br..<3 * br + 3]" "?c \<in> set [3 * bc..<3 * bc + 3]"
    using assms(3,4) by simp_all
  have "\<not> (?r = 3 * br + i \<and> ?c = 3 * bc + j)" using assms(5) by auto
  then have ok: "\<not> (?r = 3 * br + i \<and> ?c = 3 * bc + j) \<and> is_solved (g ! ?r ! ?c)"
    using assms(6) by (simp add: cell_at_def)
  have "value (g ! ?r ! ?c) \<in> set [value (g ! r ! c).
      r \<leftarrow> [3 * br..<3 * br + 3], c \<leftarrow> [3 * bc..<3 * bc + 3],
      \<not> (r = 3 * br + i \<and> c = 3 * bc + j) \<and> is_solved (g ! r ! c)]"
    by (rule in_comprehension2 [of ?r _ ?c _
          "\<lambda>r c. \<not> (r = 3 * br + i \<and> c = 3 * bc + j) \<and> is_solved (g ! r ! c)"
          "\<lambda>r c. value (g ! r ! c)", OF m ok])
  then show ?thesis
    unfolding constraining_values_def Let_def fst_conv snd_conv rs cs
    by (simp add: cell_at_def del: upt_Suc)
qed

lemma peer_in_group:
  assumes "wf_grid g" and "refs_ok g" and "u \<in> set units" and "p \<in> set u" and "q \<in> set u"
    and "q \<noteq> p" and "is_solved (cell_at g q)"
  shows "value (cell_at g q) \<in> set (constraining_values g p special)"
  using assms(3)
proof (cases rule: units_cases)
  case (1 r)
  from assms(4) 1 obtain c1 where p: "p = (r, c1)" "c1 < 9" by (auto simp: row_refs_def)
  from assms(5) 1 obtain c2 where q: "q = (r, c2)" "c2 < 9" by (auto simp: row_refs_def)
  from p q assms(6) have "c2 \<noteq> c1" by simp
  from row_in_group [OF assms(1,2) 1(1) p(2) q(2) this, of special] assms(7) p q
  show ?thesis by simp
next
  case (2 c)
  from assms(4) 2 obtain r1 where p: "p = (r1, c)" "r1 < 9" by (auto simp: col_refs_def)
  from assms(5) 2 obtain r2 where q: "q = (r2, c)" "r2 < 9" by (auto simp: col_refs_def)
  from p q assms(6) have "r2 \<noteq> r1" by simp
  from col_in_group [OF p(2) q(2) this, of g c special] assms(7) p q
  show ?thesis by simp
next
  case (3 br bc)
  from assms(4) 3 obtain i j where p: "p = (3 * br + i, 3 * bc + j)" "i < 3" "j < 3"
    by (auto simp: box_refs_def)
  from assms(5) 3 obtain i' j' where q: "q = (3 * br + i', 3 * bc + j')" "i' < 3" "j' < 3"
    by (auto simp: box_refs_def)
  from p q assms(6) have "(i', j') \<noteq> (i, j)" by auto
  from box_in_group [OF p(2,3) q(2,3) this, of g br bc special] assms(7) p q
  show ?thesis by simp
qed

lemma cell_at_upd:
  "cell_at (upd_cell g p f) q =
     (if q = p \<and> fst p < length g \<and> snd p < length (g ! fst p) then f (cell_at g q) else cell_at g q)"
proof (cases "q = p")
  case True
  then show ?thesis
    by (cases "fst p < length g \<and> snd p < length (g ! fst p)")
       (auto simp: cell_at_upd_same upd_cell_beyond)
next
  case False
  then show ?thesis by (simp add: cell_at_upd_other)
qed

lemma refs_ok_upd:
  "refs_ok g \<Longrightarrow> ref (f (cell_at g p)) = ref (cell_at g p) \<Longrightarrow> refs_ok (upd_cell g p f)"
  by (simp add: refs_ok_def cell_at_upd)

lemma units_facts: "\<forall>u \<in> set units. distinct u \<and> length u = 9 \<and> set u \<subseteq> set all_refs"
  by code_simp

lemma consistent_set:
  assumes "consistent g" and "wf_grid g" and "refs_ok g" and "p \<in> set all_refs"
    and "check_cell_possib g p v special"
  shows "consistent (upd_cell g p (\<lambda>c. set_value c v False))"
  unfolding consistent_def
proof (intro ballI impI, elim conjE)
  let ?g = "upd_cell g p (\<lambda>c. set_value c v False)"
  fix u a b
  assume u: "u \<in> set units" and a: "a \<in> set u" and b: "b \<in> set u" and ab: "a \<noteq> b"
    and sa: "is_solved (cell_at ?g a)" and sb: "is_solved (cell_at ?g b)"
  have rng: "fst p < length g" "snd p < length (g ! fst p)"
    using assms(2,4) by (simp_all add: in_all_refs wf_grid_def)
  have vp: "value (cell_at ?g p) = v"
    using rng by (simp add: cell_at_upd_same set_value_def)
  have notin: "v \<notin> set (constraining_values g p special)"
    using assms(5) by (simp add: check_cell_possib_def)
  have other: "value (cell_at ?g q) \<noteq> v" if "q \<in> set u" "q \<noteq> p" "p \<in> set u" "is_solved (cell_at ?g q)" for q
  proof -
    have same: "cell_at ?g q = cell_at g q" using that(2) by (simp add: cell_at_upd_other)
    with that(4) have "is_solved (cell_at g q)" by simp
    from peer_in_group [OF assms(2,3) u that(3,1,2) this, of special] notin same
    show ?thesis by auto
  qed
  show "value (cell_at ?g a) \<noteq> value (cell_at ?g b)"
  proof (cases "a = p")
    case True
    with ab have "b \<noteq> p" by simp
    from other [OF b this] a True sb vp show ?thesis by simp
  next
    case False
    show ?thesis
    proof (cases "b = p")
      case True
      from other [OF a False] b True sa vp show ?thesis by simp
    next
      case bp: False
      have "cell_at ?g a = cell_at g a" "cell_at ?g b = cell_at g b"
        using False bp by (simp_all add: cell_at_upd_other)
      with assms(1) u a b ab sa sb show ?thesis
        unfolding consistent_def by simp
    qed
  qed
qed

lemma consistent_reset:
  assumes "consistent g"
  shows "consistent (upd_cell g p (\<lambda>c. c\<lparr>value := 0\<rparr>))"
proof -
  let ?g = "upd_cell g p (\<lambda>c. c\<lparr>value := 0\<rparr>)"
  have same: "cell_at ?g q = cell_at g q" if "is_solved (cell_at ?g q)" for q
    using that by (auto simp: cell_at_upd is_solved_def split: if_splits)
  show ?thesis
    unfolding consistent_def
  proof (intro ballI impI, elim conjE)
    fix u a b
    assume "u \<in> set units" "a \<in> set u" "b \<in> set u" "a \<noteq> b"
      "is_solved (cell_at ?g a)" "is_solved (cell_at ?g b)"
    with assms same [of a] same [of b] show "value (cell_at ?g a) \<noteq> value (cell_at ?g b)"
      unfolding consistent_def by simp
  qed
qed

lemma grid_inv_set:
  assumes "grid_inv g" and "p \<in> set all_refs" and "check_cell_possib g p v special"
  shows "grid_inv (upd_cell g p (\<lambda>c. set_value c v False))"
proof -
  from assms(1) have g: "wf_grid g" "refs_ok g" "consistent g" by (simp_all add: grid_inv_def)
  have "refs_ok (upd_cell g p (\<lambda>c. set_value c v False))"
    by (rule refs_ok_upd [OF g(2)]) (simp add: set_value_def ref_def)
  moreover have "consistent (upd_cell g p (\<lambda>c. set_value c v False))"
    by (rule consistent_set [OF g(3,1,2) assms(2,3)])
  ultimately show ?thesis using g(1) by (simp add: grid_inv_def)
qed

lemma grid_inv_reset: "grid_inv g \<Longrightarrow> grid_inv (upd_cell g p (\<lambda>c. c\<lparr>value := 0\<rparr>))"
  by (simp add: grid_inv_def consistent_reset refs_ok_upd ref_def)

lemma brute_inv:
  "brute_force n special b = Some (ok, b') \<longrightarrow> grid_inv (grid b) \<longrightarrow>
     set (unsolved_cells b) \<subseteq> set all_refs \<longrightarrow>
     grid_inv (grid b') \<and> set (unsolved_cells b') \<subseteq> set (unsolved_cells b)"
  "brute_values k special b cell vs = Some (ok, b') \<longrightarrow> grid_inv (grid b) \<longrightarrow>
     cell \<in> set all_refs \<longrightarrow> set (unsolved_cells b) \<subseteq> set all_refs \<longrightarrow>
     grid_inv (grid b') \<and> set (unsolved_cells b') \<subseteq> insert cell (set (unsolved_cells b))"
proof (induction n special b and k special b cell vs arbitrary: ok b' and ok b'
    rule: brute_force_brute_values.induct)
  case (1 n special b)
  show ?case
  proof (cases "unsolved_cells b")
    case Nil
    then show ?thesis by auto
  next
    case (Cons cell rest)
    show ?thesis
    proof (intro impI)
      assume res: "brute_force n special b = Some (ok, b')" and inv: "grid_inv (grid b)"
        and sub: "set (unsolved_cells b) \<subseteq> set all_refs"
      from res Cons obtain k where n: "n = Suc k" by (cases n) auto
      let ?b0 = "b\<lparr>unsolved_cells := rest\<rparr>"
      have r: "brute_values k special ?b0 cell (possib (cell_at (grid b) cell)) = Some (ok, b')"
        using res Cons n by simp
      have "cell \<in> set all_refs" "set (unsolved_cells ?b0) \<subseteq> set all_refs"
        using sub Cons by auto
      with "1.IH" [OF Cons n, of ok b'] r inv
      have "grid_inv (grid b') \<and> set (unsolved_cells b') \<subseteq> insert cell (set (unsolved_cells ?b0))"
        by simp
      then show "grid_inv (grid b') \<and> set (unsolved_cells b') \<subseteq> set (unsolved_cells b)"
        using Cons by auto
    qed
  qed
next
  case (2 k special b cell)
  then show ?case by auto
next
  case (3 k special b cell v vs)
  show ?case
  proof (intro impI)
    assume res: "brute_values k special b cell (v # vs) = Some (ok, b')"
      and inv: "grid_inv (grid b)" and cin: "cell \<in> set all_refs"
      and sub: "set (unsolved_cells b) \<subseteq> set all_refs"
    show "grid_inv (grid b') \<and> set (unsolved_cells b') \<subseteq> insert cell (set (unsolved_cells b))"
    proof (cases "check_cell_possib (grid b) cell v special")
      case False
      then have "brute_values k special b cell vs = Some (ok, b')" using res by simp
      with "3.IH"(3) [OF False, of ok b'] inv cin sub show ?thesis by simp
    next
      case True
      let ?b0 = "b\<lparr>grid := upd_cell (grid b) cell (\<lambda>c. set_value c v False)\<rparr>"
      from res True obtain ok1 b1 where r1: "brute_force k special ?b0 = Some (ok1, b1)"
        by (cases "brute_force k special ?b0") auto
      have inv0: "grid_inv (grid ?b0)"
        using grid_inv_set [OF inv cin True] by simp
      with "3.IH"(1) [OF True, of ok1 b1] r1 sub
      have inv1: "grid_inv (grid b1)" and sub1: "set (unsolved_cells b1) \<subseteq> set (unsolved_cells b)"
        by simp_all
      show ?thesis
      proof (cases ok1)
        case ok: True
        with res \<open>check_cell_possib (grid b) cell v special\<close> r1 have "b' = b1" by simp
        with inv1 sub1 show ?thesis by auto
      next
        case fail: False
        let ?b2 = "b1\<lparr>grid := upd_cell (grid b1) cell (\<lambda>c. c\<lparr>value := 0\<rparr>)\<rparr>"
        have r2: "brute_values k special ?b2 cell vs = Some (ok, b')"
          using res True r1 fail by simp
        have "grid_inv (grid ?b2)" using grid_inv_reset [OF inv1] by simp
        moreover have "set (unsolved_cells ?b2) \<subseteq> set all_refs" using sub1 sub by auto
        ultimately have "grid_inv (grid b') \<and>
            set (unsolved_cells b') \<subseteq> insert cell (set (unsolved_cells ?b2))"
          using "3.IH"(2) [OF True r1 refl fail, of ok b'] r2 cin by simp
        with sub1 show ?thesis by auto
      qed
    qed
  qed
qed

lemma reduce_loop_ref: "reduce_loop c red grp = Inr (c', r) \<Longrightarrow> ref c' = ref c"
proof (induction grp arbitrary: c red)
  case Nil
  then show ?case by simp
next
  case (Cons a grp)
  let ?c1 = "c\<lparr>possib := removeAll a (possib c)\<rparr>"
  have c1: "(if a \<in> set (possib c) then ?c1 else c) = ?c1" by simp
  from Cons.prems have ne: "\<not> eq_int c a"
    by (auto split: if_splits)
  show ?case
  proof (cases "length (possib ?c1) = 1")
    case True
    with Cons.prems ne show ?thesis
      unfolding reduce_loop.simps c1 Let_def by (auto simp: set_value_def ref_def)
  next
    case False
    with Cons.prems ne obtain r1 where "reduce_loop ?c1 r1 grp = Inr (c', r)"
      unfolding reduce_loop.simps c1 Let_def by auto
    from Cons.IH [OF this] show ?thesis by (simp add: ref_def)
  qed
qed

lemma reduce_cell_refs_ok:
  assumes "reduce_cell g t special = Inr (g1, r)" and "refs_ok g"
  shows "refs_ok g1"
proof (cases "is_solved (cell_at g t)")
  case True
  with assms show ?thesis by (simp add: reduce_cell_def)
next
  case False
  with assms(1) obtain c' r' where rl: "reduce_loop (cell_at g t) False (constraining_values g t special) = Inr (c', r')"
    and g1: "g1 = upd_cell g t (\<lambda>_. c')"
    by (auto simp: reduce_cell_def reduce_possibilities_def split: sum.splits)
  show ?thesis unfolding g1
    by (rule refs_ok_upd [OF assms(2)]) (simp add: reduce_loop_ref [OF rl])
qed

lemma sweep_refs_ok:
  "refs_ok (grid b) \<Longrightarrow> sweep special b i reducing = Inr (b', rs) \<Longrightarrow> refs_ok (grid b')"
proof (induction special b i reducing rule: sweep.induct)
  case (1 special b i reducing)
  show ?case
  proof (cases "i < length (unsolved_cells b)")
    case False
    with "1.prems"(2) have "b' = b"
      by (subst (asm) sweep.simps [of special b i reducing]) (simp del: sweep.simps)
    with "1.prems"(1) show ?thesis by simp
  next
    case True
    let ?t = "unsolved_cells b ! i"
    obtain g1 r where rc: "reduce_cell (grid b) ?t special = Inr (g1, r)"
      using "1.prems"(2) True
      by (subst (asm) sweep.simps [of special b i reducing])
         (auto simp: Let_def simp del: sweep.simps split: sum.splits)
    from reduce_cell_refs_ok [OF rc "1.prems"(1)] have ok1: "refs_ok g1" .
    show ?thesis
    proof (cases "is_solved (cell_at g1 ?t)")
      case solved: True
      with "1.prems"(2) True rc obtain us where rm: "remove_cell g1 ?t (unsolved_cells b) = Inr us"
        by (subst (asm) sweep.simps [of special b i reducing])
           (auto simp: Let_def simp del: sweep.simps split: sum.splits)
      let ?b1 = "\<lparr>grid = g1, unsolved_cells = us\<rparr>"
      have step: "sweep special b i reducing = sweep special ?b1 (Suc i) (reducing @ [r])"
        using True rc solved rm
        by (subst sweep.simps [of special b i reducing]) (simp del: sweep.simps)
      from "1.IH"(1) [OF True refl rc refl solved rm] ok1 "1.prems"(2) step
      show ?thesis by simp
    next
      case unsolved: False
      let ?b1 = "b\<lparr>grid := g1\<rparr>"
      have step: "sweep special b i reducing = sweep special ?b1 (Suc i) (reducing @ [r])"
        using True rc unsolved
        by (subst sweep.simps [of special b i reducing]) (simp del: sweep.simps)
      from "1.IH"(2) [OF True refl rc refl unsolved] ok1 "1.prems"(2) step
      show ?thesis by simp
    qed
  qed
qed

lemma reduce_cells_refs_ok:
  "refs_ok (grid b) \<Longrightarrow> reduce_cells n special b = Some (Inr b') \<Longrightarrow> refs_ok (grid b')"
proof (induction n arbitrary: b)
  case 0
  then show ?case by (auto split: if_splits)
next
  case (Suc n)
  show ?case
  proof (cases "all_solved b")
    case True
    with Suc.prems show ?thesis by simp
  next
    case False
    with Suc.prems(2) obtain b1 rs where sw: "sweep special b 0 [] = Inr (b1, rs)"
      by (subst (asm) reduce_cells.simps) (auto split: sum.splits)
    from sweep_refs_ok [OF Suc.prems(1) sw] have ok1: "refs_ok (grid b1)" .
    show ?thesis
    proof (cases "Some True \<in> set rs")
      case True
      have "reduce_cells (Suc n) special b = reduce_cells n special b1"
        using False sw True by (subst reduce_cells.simps) simp
      with Suc.IH [OF ok1] Suc.prems(2) show ?thesis by simp
    next
      case no: False
      have "reduce_cells (Suc n) special b = Some (Inr b1)"
        using False sw no by (subst reduce_cells.simps) simp
      with ok1 Suc.prems(2) show ?thesis by simp
    qed
  qed
qed

lemma Sudoku_refs_ok:
  assumes "Sudoku g = Inr b"
  shows "refs_ok (grid b)"
proof -
  from assms have len: "81 \<le> length g"
    by (auto simp: Sudoku_def parse_grid_def split: if_splits)
  from Sudoku_Inr [OF len] assms
  have gr: "grid b = map (\<lambda>r. map (\<lambda>c. Cell r c (g ! (9 * r + c))) [0..<9]) [0..<9]"
    by auto
  show ?thesis
    unfolding refs_ok_def gr
    by (auto simp: in_all_refs cell_at_def ref_def Cell_def simp del: upt_Suc)
qed

section \<open>Solved grids\<close>

lemma distinct_count_list: "distinct xs \<Longrightarrow> x \<in> set xs \<Longrightarrow> count_list xs x = 1"
  by (induction xs) (auto simp: count_list_0_iff)

lemma consistent_valid:
  assumes "fully_solved g" and "consistent g"
  shows "valid g"
  unfolding valid_def
proof (intro ballI)
  fix u d
  assume u: "u \<in> set units" and d: "d \<in> set [1, 2, 3, 4, 5, 6, 7, 8, 9 :: int]"
  let ?f = "\<lambda>p. value (cell_at g p)"
  from units_facts u have du: "distinct u" and lu: "length u = 9" and su: "set u \<subseteq> set all_refs"
    by blast+
  have rng: "1 \<le> ?f p \<and> ?f p \<le> 9" if "p \<in> set u" for p
    using assms(1) su that by (auto simp: fully_solved_def)
  have "inj_on ?f (set u)"
  proof (rule inj_onI)
    fix p q assume p: "p \<in> set u" and q: "q \<in> set u" and eq: "?f p = ?f q"
    have "is_solved (cell_at g p)" "is_solved (cell_at g q)"
      using rng [OF p] rng [OF q] by (simp_all add: is_solved_def)
    with assms(2) u p q eq show "p = q" unfolding consistent_def by blast
  qed
  with du have dv: "distinct (unit_values g u)"
    by (simp add: unit_values_def distinct_map)
  have "set (unit_values g u) \<subseteq> {1..9}"
    using rng by (auto simp: unit_values_def)
  moreover have "card (set (unit_values g u)) = card {1..9 :: int}"
    using distinct_card [OF dv] lu by (simp add: unit_values_def)
  ultimately have "set (unit_values g u) = {1..9}"
    by (intro card_subset_eq) simp_all
  with d have "d \<in> set (unit_values g u)" by auto
  with dv show "count_list (unit_values g u) d = 1" by (rule distinct_count_list)
qed

text \<open>
  C1, as stated: whenever the grid after \<open>solve(special=False)\<close> is fully solved, it is
  valid. The grid of 81 fives comes back as it went in, fully solved and not valid. On
  \<open>over_grid\<close>, whose pre-supplied values are consistent, propagation commits for each
  empty cell the last candidate left although the cell's group holds it too, and the
  result is again fully solved and not valid.
\<close>

theorem solved_grid_counterexample:
  "(case Sudoku (replicate 81 5) of
      Inl e \<Rightarrow> False
    | Inr b \<Rightarrow>
        (case solve 730 9 81 False b of
           Some (Inr b') \<Rightarrow>
             grid_to_list b' = replicate 81 5 \<and> fully_solved (grid b') \<and> \<not> valid (grid b')
         | _ \<Rightarrow> False)) \<and>
   (case Sudoku over_grid of
      Inl e \<Rightarrow> False
    | Inr b \<Rightarrow>
        consistent (grid b) \<and>
        (case solve 730 9 81 False b of
           Some (Inr b') \<Rightarrow> fully_solved (grid b') \<and> \<not> valid (grid b')
         | _ \<Rightarrow> False))"
  by code_simp

text \<open>
  C1, amended: if the grid is consistent when the propagation of \<open>solve(special=False)\<close>
  ends, then a fully solved result is valid: every row, column and box contains each of
  1 to 9 exactly once.
\<close>

theorem solved_grid_valid:
  assumes "Sudoku g = Inr b" and "reduce_cells n False b = Some (Inr b1)"
    and "consistent (grid b1)" and "solve n m k False b = Some (Inr b')"
    and "fully_solved (grid b')"
  shows "valid (grid b')"
proof -
  from assms(2,4) obtain ok where bf: "brute_force k False b1 = Some (ok, b')"
    by (auto simp: solve_def)
  from Sudoku_wf [OF assms(1)] have "wf_board b" by simp
  from reduce_cells_no_error [OF this assms(2)] have wf1: "wf_board b1" by simp
  have "refs_ok (grid b1)"
    by (rule reduce_cells_refs_ok [OF Sudoku_refs_ok [OF assms(1)] assms(2)])
  with wf1 assms(3) have inv: "grid_inv (grid b1)"
    by (simp add: grid_inv_def wf_board_def)
  have "set (unsolved_cells b1) \<subseteq> set all_refs"
    using wf1 by (auto simp: wf_board_def in_range_def in_all_refs)
  with brute_inv(1) [of k False b1 ok b'] bf inv have "grid_inv (grid b')" by simp
  then have "consistent (grid b')" by (simp add: grid_inv_def)
  with assms(5) show ?thesis by (rule consistent_valid)
qed

theorem solved_grid_valid_witness:
  "\<exists>b b1 b'. Sudoku rect_grid = Inr b \<and> reduce_cells 730 False b = Some (Inr b1) \<and>
     consistent (grid b1) \<and> length (unsolved_cells b1) = 4 \<and>
     solve 730 9 81 False b = Some (Inr b') \<and> fully_solved (grid b') \<and> valid (grid b')"
proof -
  let ?b = "projr (Sudoku rect_grid)"
  let ?b1 = "projr (the (reduce_cells 730 False ?b))"
  let ?b' = "projr (the (solve 730 9 81 False ?b))"
  have len: "81 \<le> length rect_grid" by (simp add: rect_grid_def)
  from Sudoku_Inr [OF len] obtain b where "Sudoku rect_grid = Inr b" by blast
  then have s1: "Sudoku rect_grid = Inr ?b" by simp
  from Sudoku_wf [OF s1] have wf: "wf_board ?b" "candidates (grid ?b) \<le> 729"
    "length (unsolved_cells ?b) \<le> 81" by simp_all
  from wf(2) have "candidates (grid ?b) < 730" by simp
  from reduce_cells_Some [OF wf(1) this, of False]
  obtain b1 where "reduce_cells 730 False ?b = Some (Inr b1)" by blast
  then have s2: "reduce_cells 730 False ?b = Some (Inr ?b1)" by simp
  from solve_total [OF wf, of 730 9 81 False]
  obtain b' where "solve 730 9 81 False ?b = Some (Inr b')" by auto
  then have s4: "solve 730 9 81 False ?b = Some (Inr ?b')" by simp
  have s3: "consistent (grid ?b1)" by code_simp
  have l: "length (unsolved_cells ?b1) = 4" by code_simp
  have s5: "fully_solved (grid ?b')" by code_simp
  from solved_grid_valid [OF s1 s2 s3 s4 s5] have "valid (grid ?b')" .
  with s1 s2 s3 l s4 s5 show ?thesis by blast
qed

section \<open>The central magic square\<close>

lemma take3_drop3: "length xs = 9 \<Longrightarrow> take 3 (drop 3 xs) = [xs ! 3, xs ! 4, xs ! 5]"
  by (intro nth_equalityI) (auto simp: nth_Cons split: nat.splits)

lemma get_mid_square_wf:
  assumes "wf_grid g"
  shows "get_mid_square g =
    [[g ! 3 ! 3, g ! 3 ! 4, g ! 3 ! 5], [g ! 4 ! 3, g ! 4 ! 4, g ! 4 ! 5], [g ! 5 ! 3, g ! 5 ! 4, g ! 5 ! 5]]"
proof -
  have "length g = 9" "length (g ! 3) = 9" "length (g ! 4) = 9" "length (g ! 5) = 9"
    using assms by (simp_all add: wf_grid_def)
  then show ?thesis by (simp add: get_mid_square_def take3_drop3)
qed

lemma brute_wf:
  "brute_force n special b = Some (ok, b') \<longrightarrow> wf_grid (grid b') = wf_grid (grid b)"
  "brute_values k special b cell vs = Some (ok, b') \<longrightarrow> wf_grid (grid b') = wf_grid (grid b)"
proof (induction n special b and k special b cell vs arbitrary: ok b' and ok b'
    rule: brute_force_brute_values.induct)
  case (1 n special b)
  show ?case
  proof (cases "unsolved_cells b")
    case Nil
    then show ?thesis by auto
  next
    case (Cons cell rest)
    show ?thesis
    proof
      assume res: "brute_force n special b = Some (ok, b')"
      from res Cons obtain k where n: "n = Suc k" by (cases n) auto
      have "brute_values k special (b\<lparr>unsolved_cells := rest\<rparr>) cell (possib (cell_at (grid b) cell))
            = Some (ok, b')"
        using res Cons n by simp
      with "1.IH" [OF Cons n, of ok b'] show "wf_grid (grid b') = wf_grid (grid b)" by simp
    qed
  qed
next
  case (2 k special b cell)
  then show ?case by auto
next
  case (3 k special b cell v vs)
  show ?case
  proof
    assume res: "brute_values k special b cell (v # vs) = Some (ok, b')"
    show "wf_grid (grid b') = wf_grid (grid b)"
    proof (cases "check_cell_possib (grid b) cell v special")
      case False
      then have "brute_values k special b cell vs = Some (ok, b')" using res by simp
      with "3.IH"(3) [OF False, of ok b'] show ?thesis by simp
    next
      case True
      let ?b0 = "b\<lparr>grid := upd_cell (grid b) cell (\<lambda>c. set_value c v False)\<rparr>"
      from res True obtain ok1 b1 where r1: "brute_force k special ?b0 = Some (ok1, b1)"
        by (cases "brute_force k special ?b0") auto
      from "3.IH"(1) [OF True, of ok1 b1] r1 have w1: "wf_grid (grid b1) = wf_grid (grid b)"
        by simp
      show ?thesis
      proof (cases ok1)
        case ok: True
        with res \<open>check_cell_possib (grid b) cell v special\<close> r1 have "b' = b1" by simp
        with w1 show ?thesis by simp
      next
        case fail: False
        let ?b2 = "b1\<lparr>grid := upd_cell (grid b1) cell (\<lambda>c. c\<lparr>value := 0\<rparr>)\<rparr>"
        have "brute_values k special ?b2 cell vs = Some (ok, b')"
          using res True r1 fail by simp
        with "3.IH"(2) [OF True r1 refl fail, of ok b'] w1 show ?thesis by simp
      qed
    qed
  qed
qed

section \<open>Cells outside the frontier\<close>

lemma sweep_others:
  "sweep special b i reducing = Inr (b', rs) \<Longrightarrow>
   set (unsolved_cells b') \<subseteq> set (unsolved_cells b) \<and>
   (\<forall>q. q \<notin> set (unsolved_cells b) \<longrightarrow> cell_at (grid b') q = cell_at (grid b) q)"
proof (induction special b i reducing rule: sweep.induct)
  case (1 special b i reducing)
  show ?case
  proof (cases "i < length (unsolved_cells b)")
    case False
    with "1.prems" have "b' = b"
      by (subst (asm) sweep.simps [of special b i reducing]) (simp del: sweep.simps)
    then show ?thesis by simp
  next
    case True
    let ?t = "unsolved_cells b ! i"
    have tin: "?t \<in> set (unsolved_cells b)" using True by simp
    obtain g1 r where rc: "reduce_cell (grid b) ?t special = Inr (g1, r)"
      using "1.prems" True
      by (subst (asm) sweep.simps [of special b i reducing])
         (auto simp: Let_def simp del: sweep.simps split: sum.splits)
    have other: "cell_at g1 q = cell_at (grid b) q" if "q \<notin> set (unsolved_cells b)" for q
    proof -
      from that tin have "q \<noteq> ?t" by blast
      from reduce_cell_other [OF rc this] show ?thesis .
    qed
    show ?thesis
    proof (cases "is_solved (cell_at g1 ?t)")
      case solved: True
      with "1.prems" True rc obtain us where rm: "remove_cell g1 ?t (unsolved_cells b) = Inr us"
        by (subst (asm) sweep.simps [of special b i reducing])
           (auto simp: Let_def simp del: sweep.simps split: sum.splits)
      let ?b1 = "\<lparr>grid = g1, unsolved_cells = us\<rparr>"
      have step: "sweep special b i reducing = sweep special ?b1 (Suc i) (reducing @ [r])"
        using True rc solved rm
        by (subst sweep.simps [of special b i reducing]) (simp del: sweep.simps)
      have sub: "set us \<subseteq> set (unsolved_cells b)" by (rule remove_cell_subset [OF rm])
      from "1.IH"(1) [OF True refl rc refl solved rm] "1.prems" step
      have ih: "set (unsolved_cells b') \<subseteq> set us"
        "\<forall>q. q \<notin> set us \<longrightarrow> cell_at (grid b') q = cell_at g1 q"
        by simp_all
      from ih sub other show ?thesis by (metis subsetD subset_trans)
    next
      case unsolved: False
      let ?b1 = "b\<lparr>grid := g1\<rparr>"
      have step: "sweep special b i reducing = sweep special ?b1 (Suc i) (reducing @ [r])"
        using True rc unsolved
        by (subst sweep.simps [of special b i reducing]) (simp del: sweep.simps)
      from "1.IH"(2) [OF True refl rc refl unsolved] "1.prems" step
      have ih: "set (unsolved_cells b') \<subseteq> set (unsolved_cells b)"
        "\<forall>q. q \<notin> set (unsolved_cells b) \<longrightarrow> cell_at (grid b') q = cell_at g1 q"
        by simp_all
      from ih other show ?thesis by simp
    qed
  qed
qed

lemma reduce_cells_others:
  "reduce_cells n special b = Some (Inr b') \<Longrightarrow>
   set (unsolved_cells b') \<subseteq> set (unsolved_cells b) \<and>
   (\<forall>q. q \<notin> set (unsolved_cells b) \<longrightarrow> cell_at (grid b') q = cell_at (grid b) q)"
proof (induction n arbitrary: b)
  case 0
  then show ?case by (auto split: if_splits)
next
  case (Suc n)
  show ?case
  proof (cases "all_solved b")
    case True
    with Suc.prems show ?thesis by simp
  next
    case False
    with Suc.prems obtain b1 rs where sw: "sweep special b 0 [] = Inr (b1, rs)"
      by (subst (asm) reduce_cells.simps) (auto split: sum.splits)
    from sweep_others [OF sw] have o1: "set (unsolved_cells b1) \<subseteq> set (unsolved_cells b)"
      "\<forall>q. q \<notin> set (unsolved_cells b) \<longrightarrow> cell_at (grid b1) q = cell_at (grid b) q"
      by simp_all
    show ?thesis
    proof (cases "Some True \<in> set rs")
      case True
      have "reduce_cells (Suc n) special b = reduce_cells n special b1"
        using False sw True by (subst reduce_cells.simps) simp
      with Suc.IH [of b1] Suc.prems
      have "set (unsolved_cells b') \<subseteq> set (unsolved_cells b1)"
        "\<forall>q. q \<notin> set (unsolved_cells b1) \<longrightarrow> cell_at (grid b') q = cell_at (grid b1) q"
        by simp_all
      with o1 show ?thesis by (metis subsetD subset_trans)
    next
      case no: False
      have "reduce_cells (Suc n) special b = Some (Inr b1)"
        using False sw no by (subst reduce_cells.simps) simp
      with o1 Suc.prems show ?thesis by simp
    qed
  qed
qed

lemma magic_others:
  "brute_force_magic_square n g mid = Some (ok, g', mid') \<longrightarrow>
     set mid' \<subseteq> set mid \<and> (\<forall>q. q \<notin> set mid \<longrightarrow> cell_at g' q = cell_at g q)"
  "magic_values n g cell mid vs = Some (ok, g', mid') \<longrightarrow>
     set mid' \<subseteq> insert cell (set mid) \<and>
     (\<forall>q. q \<notin> insert cell (set mid) \<longrightarrow> cell_at g' q = cell_at g q)"
proof (induction n g mid and n g cell mid vs arbitrary: ok g' mid' and ok g' mid'
    rule: brute_force_magic_square_magic_values.induct)
  case (3 n g cell mid_square)
  show ?case
  proof
    assume "brute_force_magic_square (Suc n) g (cell # mid_square) = Some (ok, g', mid')"
    then have "magic_values n g cell mid_square (possib (cell_at g cell)) = Some (ok, g', mid')"
      by simp
    with "3.IH" [of ok g' mid']
    show "set mid' \<subseteq> set (cell # mid_square) \<and>
          (\<forall>q. q \<notin> set (cell # mid_square) \<longrightarrow> cell_at g' q = cell_at g q)"
      by simp
  qed
next
  case (5 n g cell mid_square v vs)
  show ?case
  proof (cases "check_magic_square_state g \<and> check_cell_possib g cell v True")
    case False
    with "5.IH"(3) [OF False, of ok g' mid'] show ?thesis by auto
  next
    case True
    let ?g0 = "upd_cell g cell (\<lambda>c. set_value c v False)"
    show ?thesis
    proof
      assume res: "magic_values n g cell mid_square (v # vs) = Some (ok, g', mid')"
      then obtain ok1 g1 mid1 where r1: "brute_force_magic_square n ?g0 mid_square = Some (ok1, g1, mid1)"
        using True by (cases "brute_force_magic_square n ?g0 mid_square") auto
      from "5.IH"(1) [OF True, of ok1 g1 mid1] r1
      have s1: "set mid1 \<subseteq> set mid_square"
        and o1: "\<forall>q. q \<notin> set mid_square \<longrightarrow> cell_at g1 q = cell_at ?g0 q"
        by simp_all
      have o1': "cell_at g1 q = cell_at g q" if "q \<notin> insert cell (set mid_square)" for q
      proof -
        from that have nq: "q \<notin> set mid_square" "q \<noteq> cell" by auto
        from o1 nq(1) have "cell_at g1 q = cell_at ?g0 q" by blast
        also have "\<dots> = cell_at g q" using nq(2) by (rule cell_at_upd_other)
        finally show ?thesis .
      qed
      show "set mid' \<subseteq> insert cell (set mid_square) \<and>
            (\<forall>q. q \<notin> insert cell (set mid_square) \<longrightarrow> cell_at g' q = cell_at g q)"
      proof (cases ok1)
        case True
        with res \<open>check_magic_square_state g \<and> check_cell_possib g cell v True\<close> r1
        have "g' = g1" "mid' = mid1" by simp_all
        with s1 o1' show ?thesis by auto
      next
        case False
        let ?g2 = "upd_cell g1 cell (\<lambda>c. c\<lparr>value := 0\<rparr>)"
        from res True r1 False
        have "magic_values n ?g2 cell mid1 vs = Some (ok, g', mid')" by simp
        with "5.IH"(2) [OF True r1 refl refl False, of ok g' mid']
        have s2: "set mid' \<subseteq> insert cell (set mid1)"
          and o2: "\<forall>q. q \<notin> insert cell (set mid1) \<longrightarrow> cell_at g' q = cell_at ?g2 q"
          by simp_all
        have "cell_at g' q = cell_at g q" if "q \<notin> insert cell (set mid_square)" for q
        proof -
          from that s1 have "q \<notin> insert cell (set mid1)" by auto
          with o2 have "cell_at g' q = cell_at ?g2 q" by blast
          also have "\<dots> = cell_at g1 q" using that by (intro cell_at_upd_other) auto
          also have "\<dots> = cell_at g q" by (rule o1' [OF that])
          finally show ?thesis .
        qed
        with s2 s1 show ?thesis by auto
      qed
    qed
  qed
qed auto

lemma brute_others:
  "brute_force n special b = Some (ok, b') \<longrightarrow>
     set (unsolved_cells b') \<subseteq> set (unsolved_cells b) \<and>
     (\<forall>q. q \<notin> set (unsolved_cells b) \<longrightarrow> cell_at (grid b') q = cell_at (grid b) q)"
  "brute_values k special b cell vs = Some (ok, b') \<longrightarrow>
     set (unsolved_cells b') \<subseteq> insert cell (set (unsolved_cells b)) \<and>
     (\<forall>q. q \<notin> insert cell (set (unsolved_cells b)) \<longrightarrow> cell_at (grid b') q = cell_at (grid b) q)"
proof (induction n special b and k special b cell vs arbitrary: ok b' and ok b'
    rule: brute_force_brute_values.induct)
  case (1 n special b)
  show ?case
  proof (cases "unsolved_cells b")
    case Nil
    then show ?thesis by auto
  next
    case (Cons cell rest)
    show ?thesis
    proof
      assume res: "brute_force n special b = Some (ok, b')"
      from res Cons obtain k where n: "n = Suc k" by (cases n) auto
      have "brute_values k special (b\<lparr>unsolved_cells := rest\<rparr>) cell (possib (cell_at (grid b) cell))
            = Some (ok, b')"
        using res Cons n by simp
      with "1.IH" [OF Cons n, of ok b'] Cons
      show "set (unsolved_cells b') \<subseteq> set (unsolved_cells b) \<and>
            (\<forall>q. q \<notin> set (unsolved_cells b) \<longrightarrow> cell_at (grid b') q = cell_at (grid b) q)"
        by simp
    qed
  qed
next
  case (2 k special b cell)
  then show ?case by auto
next
  case (3 k special b cell v vs)
  show ?case
  proof (cases "check_cell_possib (grid b) cell v special")
    case False
    with "3.IH"(3) [OF False, of ok b'] show ?thesis by auto
  next
    case True
    let ?b0 = "b\<lparr>grid := upd_cell (grid b) cell (\<lambda>c. set_value c v False)\<rparr>"
    show ?thesis
    proof
      assume res: "brute_values k special b cell (v # vs) = Some (ok, b')"
      then obtain ok1 b1 where r1: "brute_force k special ?b0 = Some (ok1, b1)"
        using True by (cases "brute_force k special ?b0") auto
      from "3.IH"(1) [OF True, of ok1 b1] r1
      have s1: "set (unsolved_cells b1) \<subseteq> set (unsolved_cells b)"
        and o1: "\<forall>q. q \<notin> set (unsolved_cells b) \<longrightarrow> cell_at (grid b1) q = cell_at (grid ?b0) q"
        by simp_all
      have o1': "cell_at (grid b1) q = cell_at (grid b) q"
        if "q \<notin> insert cell (set (unsolved_cells b))" for q
      proof -
        from that have nq: "q \<notin> set (unsolved_cells b)" "q \<noteq> cell" by auto
        from o1 nq(1) have "cell_at (grid b1) q = cell_at (grid ?b0) q" by blast
        also have "\<dots> = cell_at (grid b) q" using nq(2) by (simp add: cell_at_upd_other)
        finally show ?thesis .
      qed
      show "set (unsolved_cells b') \<subseteq> insert cell (set (unsolved_cells b)) \<and>
            (\<forall>q. q \<notin> insert cell (set (unsolved_cells b)) \<longrightarrow>
                 cell_at (grid b') q = cell_at (grid b) q)"
      proof (cases ok1)
        case True
        with res \<open>check_cell_possib (grid b) cell v special\<close> r1 have "b' = b1" by simp
        with s1 o1' show ?thesis by auto
      next
        case False
        let ?b2 = "b1\<lparr>grid := upd_cell (grid b1) cell (\<lambda>c. c\<lparr>value := 0\<rparr>)\<rparr>"
        from res True r1 False have "brute_values k special ?b2 cell vs = Some (ok, b')" by simp
        with "3.IH"(2) [OF True r1 refl False, of ok b']
        have s2: "set (unsolved_cells b') \<subseteq> insert cell (set (unsolved_cells b1))"
          and o2: "\<forall>q. q \<notin> insert cell (set (unsolved_cells b1)) \<longrightarrow>
                       cell_at (grid b') q = cell_at (grid ?b2) q"
          by simp_all
        have "cell_at (grid b') q = cell_at (grid b) q"
          if "q \<notin> insert cell (set (unsolved_cells b))" for q
        proof -
          from that s1 have "q \<notin> insert cell (set (unsolved_cells b1))" by auto
          with o2 have "cell_at (grid b') q = cell_at (grid ?b2) q" by blast
          also have "\<dots> = cell_at (grid b1) q" using that by (simp add: cell_at_upd_other)
          also have "\<dots> = cell_at (grid b) q" by (rule o1' [OF that])
          finally show ?thesis .
        qed
        with s2 s1 show ?thesis by auto
      qed
    qed
  qed
qed

lemma mid_list_unsolved:
  assumes "wf_grid g" and "refs_ok g"
    and "p \<in> set [ref c. row \<leftarrow> get_mid_square g, c \<leftarrow> row, \<not> is_solved c]"
  shows "\<not> is_solved (cell_at g p)"
proof -
  have r: "ref (g ! r ! k) = (r, k)" if "r < 9" "k < 9" for r k
  proof -
    from that have "(r, k) \<in> set all_refs" by (simp add: in_all_refs)
    with assms(2) have "ref (cell_at g (r, k)) = (r, k)" unfolding refs_ok_def by blast
    then show ?thesis by (simp add: cell_at_def)
  qed
  from assms(3) show ?thesis
    unfolding get_mid_square_wf [OF assms(1)]
    by (auto simp: r cell_at_def split: if_splits)
qed

lemma solve_phases:
  assumes "Sudoku g = Inr b" and "solve n m k special b = Some (Inr b')"
  shows "wf_grid (grid b') \<and>
         (\<forall>q. is_solved (cell_at (grid b) q) \<longrightarrow> cell_at (grid b') q = cell_at (grid b) q)"
proof -
  from Sudoku_wf [OF assms(1)] have wfb: "wf_board b" and cl: "clean b" by simp_all
  from assms(2) obtain r1 where r1: "reduce_cells n special b = Some r1"
    by (cases "reduce_cells n special b") (auto simp: solve_def)
  from reduce_cells_no_error [OF wfb r1] obtain b1 where b1: "r1 = Inr b1" "wf_board b1" by blast
  from r1 b1 have rc1: "reduce_cells n special b = Some (Inr b1)" by (simp del: reduce_cells.simps)
  from reduce_cells_others [OF rc1]
  have s1: "set (unsolved_cells b1) \<subseteq> set (unsolved_cells b)"
    and o1: "\<And>q. q \<notin> set (unsolved_cells b) \<Longrightarrow> cell_at (grid b1) q = cell_at (grid b) q"
    by blast+
  have ok1: "refs_ok (grid b1)"
    by (rule reduce_cells_refs_ok [OF Sudoku_refs_ok [OF assms(1)] rc1])
  have notin: "q \<notin> set (unsolved_cells b)" if "is_solved (cell_at (grid b) q)" for q
    using cl that by (auto simp: clean_def)
  show ?thesis
  proof (cases special)
    case False
    with assms(2) rc1 obtain ok where bf: "brute_force k special b1 = Some (ok, b')"
      by (auto simp: solve_def simp del: reduce_cells.simps brute_force.simps)
    from brute_wf(1) [of k special b1 ok b'] bf b1(2) have wf: "wf_grid (grid b')"
      by (simp add: wf_board_def)
    from brute_others(1) [of k special b1 ok b'] bf
    have o2: "\<And>q. q \<notin> set (unsolved_cells b1) \<Longrightarrow> cell_at (grid b') q = cell_at (grid b1) q"
      by blast
    have "cell_at (grid b') q = cell_at (grid b) q" if "is_solved (cell_at (grid b) q)" for q
    proof -
      from notin [OF that] s1 have "q \<notin> set (unsolved_cells b1)" by auto
      from o2 [OF this] o1 [OF notin [OF that]] show ?thesis by simp
    qed
    with wf show ?thesis by blast
  next
    case True
    with assms(2) rc1 obtain b2 where b2: "solve_magic_square m b1 = Some b2"
      by (cases "solve_magic_square m b1")
         (auto simp: solve_def simp del: reduce_cells.simps brute_force.simps)
    let ?mid = "[ref c. row \<leftarrow> get_mid_square (grid b1), c \<leftarrow> row, \<not> is_solved c]"
    from b2 obtain okm gm midm where bm: "brute_force_magic_square m (grid b1) ?mid = Some (okm, gm, midm)"
      and b2eq: "b2 = b1\<lparr>grid := gm\<rparr>"
      by (auto simp: solve_magic_square_def Let_def split: option.splits)
    from magic_others(1) [of m "grid b1" ?mid okm gm midm] bm
    have om: "\<And>q. q \<notin> set ?mid \<Longrightarrow> cell_at gm q = cell_at (grid b1) q" by blast
    from solve_magic_square_wf [OF b2 b1(2)] have wf2: "wf_board b2" .
    from assms(2) rc1 True b2 obtain r3 where r3: "reduce_cells n True b2 = Some r3"
      by (cases "reduce_cells n True b2")
         (auto simp: solve_def simp del: reduce_cells.simps brute_force.simps)
    from reduce_cells_no_error [OF wf2 r3] obtain b3 where b3: "r3 = Inr b3" "wf_board b3" by blast
    from r3 b3 have rc3: "reduce_cells n True b2 = Some (Inr b3)" by (simp del: reduce_cells.simps)
    from reduce_cells_others [OF rc3]
    have s3: "set (unsolved_cells b3) \<subseteq> set (unsolved_cells b2)"
      and o3: "\<And>q. q \<notin> set (unsolved_cells b2) \<Longrightarrow> cell_at (grid b3) q = cell_at (grid b2) q"
      by blast+
    from assms(2) rc1 True b2 rc3 obtain ok where bf: "brute_force k True b3 = Some (ok, b')"
      by (auto simp: solve_def simp del: reduce_cells.simps brute_force.simps)
    from brute_wf(1) [of k True b3 ok b'] bf b3(2) have wf: "wf_grid (grid b')"
      by (simp add: wf_board_def)
    from brute_others(1) [of k True b3 ok b'] bf
    have o4: "\<And>q. q \<notin> set (unsolved_cells b3) \<Longrightarrow> cell_at (grid b') q = cell_at (grid b3) q"
      by blast
    have "cell_at (grid b') q = cell_at (grid b) q" if "is_solved (cell_at (grid b) q)" for q
    proof -
      have n0: "q \<notin> set (unsolved_cells b)" by (rule notin [OF that])
      then have e1: "cell_at (grid b1) q = cell_at (grid b) q" by (rule o1)
      from n0 s1 have n1: "q \<notin> set (unsolved_cells b1)" by auto
      have "q \<notin> set ?mid"
      proof
        assume "q \<in> set ?mid"
        from mid_list_unsolved [OF _ ok1 this] b1(2) have "\<not> is_solved (cell_at (grid b1) q)"
          by (simp add: wf_board_def)
        with e1 that show False by simp
      qed
      from om [OF this] have e2: "cell_at (grid b2) q = cell_at (grid b1) q" by (simp add: b2eq)
      from n1 have n2: "q \<notin> set (unsolved_cells b2)" by (simp add: b2eq)
      from o3 [OF n2] have e3: "cell_at (grid b3) q = cell_at (grid b2) q" .
      from n2 s3 have "q \<notin> set (unsolved_cells b3)" by auto
      from o4 [OF this] e3 e2 e1 show ?thesis by simp
    qed
    with wf show ?thesis by blast
  qed
qed

text \<open>
  C3, as stated: a grid with two identical pre-supplied values in one row makes
  \<open>solve\<close> raise \<open>ConflictError\<close>. On \<open>conflict_grid\<close>, whose first row starts with
  two 8s, the run ends normally in both modes: propagation fills the one empty cell and
  the two 8s stay.
\<close>

theorem solve_conflict_counterexample:
  "conflict_grid ! 0 = 8 \<and> conflict_grid ! 1 = 8 \<and>
   solve_grid 730 9 81 False conflict_grid = Some (Inr (conflict_grid[80 := 2])) \<and>
   solve_grid 730 9 81 True conflict_grid = Some (Inr (conflict_grid[80 := 2]))"
  by code_simp

text \<open>
  C3, amended: on every input of 81 values, whatever the pre-supplied values, \<open>solve\<close>
  returns normally in either mode (within 730 sweeps for each propagation, depth 9 for
  the magic-square recursion and depth 81 for the search), and every pre-supplied value
  is still in its cell of the result; and whatever the fuel, no run ends in an
  exception. \<open>__reduce_cell\<close> hands only unsolved cells to \<open>reduce_possibilities\<close>, a
  group holds values of solved cells only, and no phase writes to a cell that was solved
  when the board was built.
\<close>

theorem solve_never_conflict:
  assumes "length g = 81" and "730 \<le> n" and "9 \<le> m" and "81 \<le> k"
  shows "\<exists>b b'. Sudoku g = Inr b \<and> solve n m k special b = Some (Inr b') \<and>
           (\<forall>i < 81. g ! i \<noteq> 0 \<longrightarrow> grid_to_list b' ! i = g ! i) \<and>
           (\<forall>n' m' k' e. solve n' m' k' special b \<noteq> Some (Inl e))"
proof -
  from Sudoku_Inr [of g] assms(1) obtain b where b: "Sudoku g = Inr b"
    and gr: "grid b = map (\<lambda>r. map (\<lambda>c. Cell r c (g ! (9 * r + c))) [0..<9]) [0..<9]"
    by auto
  from Sudoku_wf [OF b] have wf: "wf_board b" "candidates (grid b) \<le> 729"
    "length (unsolved_cells b) \<le> 81" by simp_all
  from solve_total [OF wf assms(2,3,4), of special]
  obtain b' where s: "solve n m k special b = Some (Inr b')" by blast
  from solve_phases [OF b s] have wf': "wf_grid (grid b')"
    and keep: "\<And>q. is_solved (cell_at (grid b) q) \<Longrightarrow> cell_at (grid b') q = cell_at (grid b) q"
    by blast+
  have "grid_to_list b' ! i = g ! i" if i: "i < 81" and nz: "g ! i \<noteq> 0" for i
  proof -
    let ?r = "i div 9" and ?c = "i mod 9"
    from i have rc: "?r < 9" "?c < 9" by auto
    have idx: "9 * ?r + ?c = i" by simp
    have at: "cell_at (grid b) (?r, ?c) = Cell ?r ?c (g ! i)"
      using rc unfolding gr cell_at_def by (simp add: idx)
    then have "is_solved (cell_at (grid b) (?r, ?c))"
      using nz by (simp add: is_solved_def Cell_def)
    from keep [OF this] at have v: "value (cell_at (grid b') (?r, ?c)) = g ! i"
      by (simp add: Cell_def)
    have u: "\<forall>row \<in> set (map (map value) (grid b')). length row = 9"
      using wf' by (simp add: wf_grid_def)
    have "concat (map (map value) (grid b')) ! (9 * ?r + ?c) = map (map value) (grid b') ! ?r ! ?c"
      by (rule nth_concat_uniform [OF u]) (use wf' rc in \<open>simp_all add: wf_grid_def\<close>)
    also have "\<dots> = value (cell_at (grid b') (?r, ?c))"
      using wf' rc by (simp add: wf_grid_def cell_at_def)
    finally show ?thesis using v by (simp add: grid_to_list_concat idx)
  qed
  moreover have "solve n' m' k' special b \<noteq> Some (Inl e)" for n' m' k' e
    by (rule solve_never_raises [OF wf(1)])
  ultimately show ?thesis using b s by blast
qed

theorem solve_never_conflict_witness:
  "\<exists>b b'. Sudoku conflict_grid = Inr b \<and> solve 730 9 81 True b = Some (Inr b') \<and>
     grid_to_list b' ! 0 = 8 \<and> grid_to_list b' ! 1 = 8 \<and>
     solve 0 0 0 True b \<noteq> Some (Inl ConflictError)"
proof -
  have "length conflict_grid = 81" by (simp add: conflict_grid_def)
  from solve_never_conflict [OF this, of 730 9 81 True]
  obtain b b' where h: "Sudoku conflict_grid = Inr b" "solve 730 9 81 True b = Some (Inr b')"
    "\<forall>i < 81. conflict_grid ! i \<noteq> 0 \<longrightarrow> grid_to_list b' ! i = conflict_grid ! i"
    "\<forall>n' m' k' e. solve n' m' k' True b \<noteq> Some (Inl e)"
    by auto
  have "conflict_grid ! 0 = 8" "conflict_grid ! 1 = 8" by (simp_all add: conflict_grid_def)
  with h(3) have "grid_to_list b' ! 0 = 8" "grid_to_list b' ! 1 = 8" by auto
  with h(1,2,4) show ?thesis by blast
qed

section \<open>The sub-solver on the central box\<close>

lemma upt9: "[0..<9] = [0, 1, 2, 3, 4, 5, 6, 7, 8]"
  by code_simp

lemma length9:
  "length (ms :: int list) = 9 \<Longrightarrow> \<exists>a0 a1 a2 a3 a4 a5 a6 a7 a8. ms = [a0, a1, a2, a3, a4, a5, a6, a7, a8]"
  by (simp add: numeral_eq_Suc length_Suc_conv) blast

lemma less9: "i < 9 \<Longrightarrow> i = 0 \<or> i = 1 \<or> i = 2 \<or> i = 3 \<or> i = 4 \<or> i = 5 \<or> i = 6 \<or> i = 7 \<or> i = (8::nat)"
  by arith

lemma centre_grid_wf: "wf_grid (centre_grid ms)"
  by (simp add: wf_grid_def centre_grid_def)

lemma centre_grid_cell:
  "r < 9 \<Longrightarrow> c < 9 \<Longrightarrow> cell_at (centre_grid ms) (r, c) = (Cell r c 0)\<lparr>value := centre_value ms r c\<rparr>"
  by (simp add: cell_at_def centre_grid_def)

lemma centre_grid_possib:
  "i < 9 \<Longrightarrow> possib (cell_at (centre_grid ms) (centre_pos i)) = [1, 2, 3, 4, 5, 6, 7, 8, 9]"
  by (simp add: centre_pos_def centre_grid_cell Cell_def upt9)

lemma centre_grid_value:
  assumes "i < 9"
  shows "value (cell_at (centre_grid ms) (centre_pos i)) = ms ! i"
proof -
  have "i div 3 < 3" using assms by arith
  then show ?thesis
    by (simp add: centre_pos_def centre_grid_cell centre_value_def)
qed

lemma centre_grid_upd:
  assumes "length ms = 9" and "i < 9"
  shows "upd_cell (centre_grid ms) (centre_pos i) (\<lambda>c. c\<lparr>value := v\<rparr>) = centre_grid (ms[i := v])"
proof -
  from length9 [OF assms(1)] obtain a0 a1 a2 a3 a4 a5 a6 a7 a8
    where ms: "ms = [a0, a1, a2, a3, a4, a5, a6, a7, a8]" by blast
  from less9 [OF assms(2)] show ?thesis
    unfolding ms
    by (elim disjE) (simp_all add: upd_cell_def centre_grid_def centre_pos_def centre_value_def upt9)
qed

lemma upt3: "[0..<3] = [0, 1, 2]"
  by code_simp

lemma centre_grid_check:
  assumes "length ms = 9"
  shows "check_magic_square_state (centre_grid ms) = centre_ok ms"
proof -
  from length9 [OF assms(1)] obtain a0 a1 a2 a3 a4 a5 a6 a7 a8
    where ms: "ms = [a0, a1, a2, a3, a4, a5, a6, a7, a8]" by blast
  show ?thesis
    unfolding ms
    by (simp add: check_magic_square_state_def get_mid_square_def centre_grid_def centre_ok_def
        centre_lines_def centre_value_def upt9 upt3 is_solved_def Let_def Cell_def)
qed

lemma comprehension2_elem:
  "x \<in> set [f r c. r \<leftarrow> rs, c \<leftarrow> cs, P r c] \<Longrightarrow>
   \<exists>r c. r \<in> set rs \<and> c \<in> set cs \<and> P r c \<and> x = f r c"
  by auto

lemma group_value_solved:
  assumes "x \<in> set (constraining_values g t special)" and "wf_grid g" and "in_range t"
  shows "\<exists>r c. r < 9 \<and> c < 9 \<and> is_solved (g ! r ! c) \<and> value (g ! r ! c) = x"
proof -
  have len: "length (g ! r) = 9" if "r < 9" for r
    using assms(2) that by (simp add: wf_grid_def)
  have rt: "fst t < 9" and ct: "snd t < 9" using assms(3) by (simp_all add: in_range_def)
  have sq: "r < 9" if "r \<in> set [k div 3 * 3..<k div 3 * 3 + 3]" and "k < 9" for r k :: nat
  proof -
    have "k div 3 \<le> 2" using that(2) by arith
    then show ?thesis using that(1) by auto
  qed
  from assms(1) consider
      (row) "x \<in> set [value c. c \<leftarrow> g ! fst t, ref c \<noteq> t \<and> is_solved c]"
    | (col) "x \<in> set [value (g ! r ! snd t). r \<leftarrow> [0..<9], r \<noteq> fst t \<and> is_solved (g ! r ! snd t)]"
    | (box) "x \<in> set [value (g ! r ! c). r \<leftarrow> [fst t div 3 * 3..<fst t div 3 * 3 + 3],
                      c \<leftarrow> [snd t div 3 * 3..<snd t div 3 * 3 + 3],
                      \<not> (r = fst t \<and> c = snd t) \<and> is_solved (g ! r ! c)]"
    | (special) "x \<in> set (special_constraining_values g t)"
    by (auto simp: constraining_values_def Let_def split: if_splits)
  then show ?thesis
  proof cases
    case row
    then obtain c where "c \<in> set (g ! fst t)" "is_solved c" "value c = x" by auto
    then obtain j where "j < 9" "g ! fst t ! j = c"
      using len [OF rt] by (auto simp: in_set_conv_nth)
    with rt \<open>is_solved c\<close> \<open>value c = x\<close> show ?thesis by blast
  next
    case col
    then obtain r where "r < 9" "is_solved (g ! r ! snd t)" "value (g ! r ! snd t) = x" by auto
    with ct show ?thesis by blast
  next
    case box
    then obtain r c where "r \<in> set [fst t div 3 * 3..<fst t div 3 * 3 + 3]"
      "c \<in> set [snd t div 3 * 3..<snd t div 3 * 3 + 3]" "is_solved (g ! r ! c)" "value (g ! r ! c) = x"
      by auto
    with sq [OF _ rt] sq [OF _ ct] show ?thesis by blast
  next
    case special
    from special [unfolded special_constraining_values_def Let_def set_append Un_iff]
    show ?thesis
    proof (elim disjE, goal_cases)
      case 1
      from comprehension2_elem [OF 1] obtain r c where k: "0 \<le> int (fst t) + r"
        "int (fst t) + r \<le> 8" "0 \<le> int (snd t) + c" "int (snd t) + c \<le> 8"
        "is_solved (g ! nat (int (fst t) + r) ! nat (int (snd t) + c))"
        "x = value (g ! nat (int (fst t) + r) ! nat (int (snd t) + c))"
        by blast
      have "nat (int (fst t) + r) < 9" "nat (int (snd t) + c) < 9" using k(1-4) by auto
      with k(5,6) show ?case by blast
    next
      case 2
      then obtain i where "i < 9" "is_solved (g ! i ! i)" "value (g ! i ! i) = x"
        by (auto split: if_splits)
      then show ?case by blast
    next
      case 3
      then obtain i where "i < 9" "is_solved (g ! i ! (8 - i))" "value (g ! i ! (8 - i)) = x"
        by (auto split: if_splits)
      moreover have "8 - i < 9" by simp
      ultimately show ?case by blast
    qed
  qed
qed

lemma centre_grid_possible:
  assumes len: "length ms = 9" and i: "i < 9" and z: "ms ! i = 0"
  shows "check_cell_possib (centre_grid ms) (centre_pos i) v True =
           (v \<notin> set (filter (\<lambda>x. x \<noteq> 0) ms))"
proof -
  let ?g = "centre_grid ms"
  have "set (constraining_values ?g (centre_pos i) True) = set (filter (\<lambda>x. x \<noteq> 0) ms)"
  proof (intro set_eqI iffI)
    fix x
    assume "x \<in> set (constraining_values ?g (centre_pos i) True)"
    moreover have "i div 3 < 3" "i mod 3 < 3" using i by simp_all
    then have "in_range (centre_pos i)" by (simp add: in_range_def centre_pos_def)
    ultimately obtain r c where rc: "r < 9" "c < 9" "is_solved (?g ! r ! c)" "value (?g ! r ! c) = x"
      using group_value_solved [OF _ centre_grid_wf] by blast
    from rc have v: "centre_value ms r c = x" "x \<noteq> 0"
      using centre_grid_cell [OF rc(1,2), of ms] by (auto simp: cell_at_def is_solved_def)
    then have "3 \<le> r \<and> r < 6 \<and> 3 \<le> c \<and> c < 6" "x = ms ! (3 * (r - 3) + (c - 3))"
      by (auto simp: centre_value_def split: if_splits)
    moreover from this(1) have "3 * (r - 3) + (c - 3) < 9" by arith
    ultimately have "x \<in> set ms" using len by (metis nth_mem)
    with v(2) show "x \<in> set (filter (\<lambda>x. x \<noteq> 0) ms)" by simp
  next
    fix x
    assume "x \<in> set (filter (\<lambda>x. x \<noteq> 0) ms)"
    then obtain j where j: "j < 9" "ms ! j = x" "x \<noteq> 0"
      using len by (auto simp: in_set_conv_nth)
    with z have ne: "j \<noteq> i" by auto
    have b: "i div 3 < 3" "i mod 3 < 3" "j div 3 < 3" "j mod 3 < 3" using i j(1) by simp_all
    have d: "(j div 3, j mod 3) \<noteq> (i div 3, i mod 3)"
      using ne by (metis Pair_inject div_mult_mod_eq)
    have s: "is_solved (cell_at ?g (3 * 1 + j div 3, 3 * 1 + j mod 3))"
      using centre_grid_value [OF j(1), of ms] j(2,3) by (simp add: centre_pos_def is_solved_def)
    from box_in_group [OF b d s, of True]
    show "x \<in> set (constraining_values ?g (centre_pos i) True)"
      using centre_grid_value [OF j(1), of ms] j(2) by (simp add: centre_pos_def)
  qed
  then show ?thesis by (simp add: check_cell_possib_def)
qed

lemma centre_restore:
  "centre_search n ms idxs = Some (False, ms1, idxs1) \<Longrightarrow> distinct idxs \<Longrightarrow>
   (\<forall>j \<in> set idxs. j < length ms \<and> ms ! j = 0) \<Longrightarrow> ms1 = ms \<and> idxs1 = idxs"
  "centre_values n ms i rest vs = Some (False, ms1, idxs1) \<Longrightarrow> distinct (i # rest) \<Longrightarrow>
   (\<forall>j \<in> set (i # rest). j < length ms \<and> ms ! j = 0) \<Longrightarrow> ms1 = ms \<and> idxs1 = i # rest"
proof (induction n ms idxs and n ms i rest vs arbitrary: ms1 idxs1 and ms1 idxs1
    rule: centre_search_centre_values.induct)
  case (1 n ms)
  then show ?case by simp
next
  case (2 ms i rest)
  then show ?case by simp
next
  case (3 n ms i rest)
  then show ?case by simp
next
  case (4 n ms i rest)
  then show ?case by simp
next
  case (5 n ms i rest v vs)
  note res = "5.prems"(1)
  have i: "i < length ms" "ms ! i = 0" and inr: "i \<notin> set rest" and dr: "distinct rest"
    and rest: "\<forall>j \<in> set rest. j < length ms \<and> ms ! j = 0"
    using "5.prems"(2,3) by auto
  show ?case
  proof (cases "centre_ok ms \<and> v \<notin> set (filter (\<lambda>x. x \<noteq> 0) ms)")
    case False
    with res have "centre_values n ms i rest vs = Some (False, ms1, idxs1)" by auto
    from "5.IH"(3) [OF False this "5.prems"(2,3)] show ?thesis .
  next
    case True
    from res True obtain ok ms2 rest2 where r: "centre_search n (ms[i := v]) rest = Some (ok, ms2, rest2)"
      by (cases "centre_search n (ms[i := v]) rest") auto
    have notok: "\<not> ok" using res True r by (auto split: if_splits)
    have pre: "\<forall>j \<in> set rest. j < length (ms[i := v]) \<and> ms[i := v] ! j = 0"
    proof
      fix j
      assume j: "j \<in> set rest"
      with inr have "i \<noteq> j" by auto
      with rest j show "j < length (ms[i := v]) \<and> ms[i := v] ! j = 0" by simp
    qed
    from "5.IH"(1) [OF True, of ms2 rest2] r notok dr pre
    have eq: "ms2 = ms[i := v]" "rest2 = rest" by simp_all
    have rst: "ms2[i := 0] = ms" using eq(1) i by (simp add: list_update_same_conv)
    have "centre_values n (ms2[i := 0]) i rest2 vs = Some (False, ms1, idxs1)"
      using res True r notok by simp
    from "5.IH"(2) [OF True r refl refl notok this] "5.prems"(2,3) rst eq(2)
    show ?thesis by simp
  qed
qed

lemma set_value_uncertain: "(\<lambda>c. set_value c v False) = (\<lambda>c. c\<lparr>value := v\<rparr>)"
  by (simp add: set_value_def fun_eq_iff)

lemma centre_refines:
  "length ms = 9 \<Longrightarrow> distinct idxs \<Longrightarrow> (\<forall>j \<in> set idxs. j < 9 \<and> ms ! j = 0) \<Longrightarrow>
   brute_force_magic_square n (centre_grid ms) (map centre_pos idxs) =
     map_option (\<lambda>(ok, ms', idxs'). (ok, centre_grid ms', map centre_pos idxs'))
       (centre_search n ms idxs)"
  "length ms = 9 \<Longrightarrow> distinct (i # rest) \<Longrightarrow> (\<forall>j \<in> set (i # rest). j < 9 \<and> ms ! j = 0) \<Longrightarrow>
   magic_values n (centre_grid ms) (centre_pos i) (map centre_pos rest) vs =
     map_option (\<lambda>(ok, ms', idxs'). (ok, centre_grid ms', map centre_pos idxs'))
       (centre_values n ms i rest vs)"
proof (induction n ms idxs and n ms i rest vs rule: centre_search_centre_values.induct)
  case (1 n ms)
  then show ?case by simp
next
  case (2 ms i rest)
  then show ?case by simp
next
  case (3 n ms i rest)
  from "3.prems" have "i < 9" by simp
  from centre_grid_possib [OF this, of ms] "3.IH" [OF "3.prems"]
  show ?case by simp
next
  case (4 n ms i rest)
  then show ?case by simp
next
  case (5 n ms i rest v vs)
  note len = "5.prems"(1)
  have i: "i < 9" "ms ! i = 0" and inr: "i \<notin> set rest" and dr: "distinct rest"
    and rest: "\<forall>j \<in> set rest. j < 9 \<and> ms ! j = 0"
    using "5.prems"(2,3) by auto
  let ?c = "centre_ok ms \<and> v \<notin> set (filter (\<lambda>x. x \<noteq> 0) ms)"
  have cond: "(check_magic_square_state (centre_grid ms) \<and>
               check_cell_possib (centre_grid ms) (centre_pos i) v True) = ?c"
    by (simp only: centre_grid_check [OF len] centre_grid_possible [OF len i])
  show ?case
  proof (cases ?c)
    case False
    then have "?c = False" by simp
    with cond have "(check_magic_square_state (centre_grid ms) \<and>
        check_cell_possib (centre_grid ms) (centre_pos i) v True) = False" by simp
    then have ceq: "magic_values n (centre_grid ms) (centre_pos i) (map centre_pos rest) (v # vs) =
        magic_values n (centre_grid ms) (centre_pos i) (map centre_pos rest) vs"
      by (simp only: magic_values.simps if_False)
    have aeq: "centre_values n ms i rest (v # vs) = centre_values n ms i rest vs"
      using \<open>?c = False\<close> by (simp only: centre_values.simps if_False)
    show ?thesis
      unfolding ceq aeq by (rule "5.IH"(3) [OF False "5.prems"])
  next
    case True
    then have "?c = True" by simp
    with cond have "(check_magic_square_state (centre_grid ms) \<and>
        check_cell_possib (centre_grid ms) (centre_pos i) v True) = True" by simp
    then have ceq: "magic_values n (centre_grid ms) (centre_pos i) (map centre_pos rest) (v # vs) =
        (case brute_force_magic_square n
                (upd_cell (centre_grid ms) (centre_pos i) (\<lambda>c. set_value c v False))
                (map centre_pos rest) of
           None \<Rightarrow> None
         | Some (ok, g1, mid1) \<Rightarrow>
             if ok then Some (True, g1, mid1)
             else magic_values n (upd_cell g1 (centre_pos i) (\<lambda>c. c\<lparr>value := 0\<rparr>))
                    (centre_pos i) mid1 vs)"
      by (simp only: magic_values.simps if_True)
    have aeq: "centre_values n ms i rest (v # vs) =
        (case centre_search n (ms[i := v]) rest of
           None \<Rightarrow> None
         | Some (ok, ms1, rest1) \<Rightarrow>
             if ok then Some (True, ms1, rest1)
             else centre_values n (ms1[i := 0]) i rest1 vs)"
      using \<open>?c = True\<close> by (simp only: centre_values.simps if_True)
    have up: "upd_cell (centre_grid ms) (centre_pos i) (\<lambda>c. set_value c v False) =
              centre_grid (ms[i := v])"
      by (simp only: set_value_uncertain centre_grid_upd [OF len i(1)])
    have pre: "\<forall>j \<in> set rest. j < 9 \<and> ms[i := v] ! j = 0"
    proof
      fix j
      assume j: "j \<in> set rest"
      with inr have "i \<noteq> j" by auto
      with rest j show "j < 9 \<and> ms[i := v] ! j = 0" by simp
    qed
    have len1: "length (ms[i := v]) = 9" using len by simp
    note ih1 = "5.IH"(1) [OF True len1 dr pre]
    show ?thesis
    proof (cases "centre_search n (ms[i := v]) rest")
      case None
      show ?thesis unfolding ceq aeq up ih1 None by simp
    next
      case (Some res)
      obtain ok ms2 rest2 where res: "res = (ok, ms2, rest2)" by (cases res) auto
      note r = Some [unfolded res]
      show ?thesis
      proof (cases ok)
        case ok: True
        show ?thesis unfolding ceq aeq up ih1 r using ok by simp
      next
        case notok: False
        have pre': "\<forall>j \<in> set rest. j < length (ms[i := v]) \<and> ms[i := v] ! j = 0"
          using pre len by simp
        from r notok have r': "centre_search n (ms[i := v]) rest = Some (False, ms2, rest2)"
          by simp
        from centre_restore(1) [OF r' dr pre']
        have eq: "ms2 = ms[i := v]" "rest2 = rest" by simp_all
        have rst: "ms2[i := 0] = ms" using eq(1) i len by (simp add: list_update_same_conv)
        have len2: "length ms2 = 9" using eq(1) len by simp
        have up2: "upd_cell (centre_grid ms2) (centre_pos i) (\<lambda>c. c\<lparr>value := 0\<rparr>) =
                   centre_grid (ms2[i := 0])"
          by (rule centre_grid_upd [OF len2 i(1)])
        have p2: "length (ms2[i := 0]) = 9" "distinct (i # rest2)"
          "\<forall>j \<in> set (i # rest2). j < 9 \<and> ms2[i := 0] ! j = 0"
          using "5.prems" rst eq(2) by simp_all
        note ih2 = "5.IH"(2) [OF True r refl refl notok p2]
        show ?thesis unfolding ceq aeq up ih1 r using notok up2 ih2 by simp
      qed
    qed
  qed
qed

lemma centre_search_zero:
  "centre_search 9 (replicate 9 0) [0..<9] = Some (True, [1, 6, 8, 9, 2, 4, 5, 7, 3], [])"
  by code_simp

lemma zero_board:
  "grid (projr (Sudoku (replicate 81 0))) = centre_grid (replicate 9 0)"
  "[ref c. row \<leftarrow> get_mid_square (grid (projr (Sudoku (replicate 81 0)))), c \<leftarrow> row,
      \<not> is_solved c] = map centre_pos [0..<9]"
  by code_simp+

lemma zero_propagate:
  "reduce_cells 730 True (projr (Sudoku (replicate 81 0))) =
     Some (Inr (projr (Sudoku (replicate 81 0))))"
  by code_simp

lemma zero_centre:
  "map (map value) (get_mid_square (centre_grid [1, 6, 8, 9, 2, 4, 5, 7, 3])) =
     [[1, 6, 8], [9, 2, 4], [5, 7, 3]]"
  "[value (get_mid_square (centre_grid [1, 6, 8, 9, 2, 4, 5, 7, 3]) ! i ! i). i \<leftarrow> [0..<3],
      is_solved (get_mid_square (centre_grid [1, 6, 8, 9, 2, 4, 5, 7, 3]) ! i ! i)] = [1, 2, 3]"
  "\<not> line_ok [1, 2, 3]"
  by code_simp+

lemma hole_solve:
  "case solve 730 9 81 True (projr (Sudoku hole_grid)) of
     Some (Inr b') \<Rightarrow> grid_to_list b' = (replicate 81 5)[40 := 1]
   | _ \<Rightarrow> False"
  by code_simp

lemma zero_mid:
  "[ref c. row \<leftarrow> get_mid_square (centre_grid (replicate 9 0)), c \<leftarrow> row, \<not> is_solved c] =
     map centre_pos [0..<9]"
  by code_simp

text \<open>
  C2: after \<open>solve(special=True)\<close> has completed with a fully solved grid, every row,
  column and diagonal of the central box sums to 15. The code does not establish this.
  \<open>__brute_force_magic_square\<close> tests \<open>__check_magic_square_state\<close> before each
  assignment and never after the last one, so that a line completed by the last central
  cell is never tested. On the all-zero grid the first propagation changes nothing, and
  the sub-solver reports success with the central box 1 6 8 / 9 2 4 / 5 7 3, where the
  test of the main diagonal, which sums to 6, fails. On \<open>hole_grid\<close> the whole of
  \<open>solve\<close> returns a grid without a zero whose central middle row is 5 1 5: the
  sub-solver has set the centre cell to 1.
\<close>

theorem magic_square_counterexample:
  "(\<exists>b g1. Sudoku (replicate 81 0) = Inr b \<and>
      reduce_cells 730 True b = Some (Inr b) \<and>
      brute_force_magic_square 9 (grid b)
        [ref c. row \<leftarrow> get_mid_square (grid b), c \<leftarrow> row, \<not> is_solved c] = Some (True, g1, []) \<and>
      solve_magic_square 9 b = Some (b\<lparr>grid := g1\<rparr>) \<and>
      map (map value) (get_mid_square g1) = [[1, 6, 8], [9, 2, 4], [5, 7, 3]] \<and>
      [value (get_mid_square g1 ! i ! i). i \<leftarrow> [0..<3], is_solved (get_mid_square g1 ! i ! i)]
        = [1, 2, 3] \<and>
      \<not> line_ok [1, 2, 3]) \<and>
   (\<exists>b b'. Sudoku hole_grid = Inr b \<and> solve 730 9 81 True b = Some (Inr b') \<and>
      grid_to_list b' = (replicate 81 5)[40 := 1] \<and> \<not> line_ok [5, 1, 5])"
proof -
  let ?b = "projr (Sudoku (replicate 81 0))"
  let ?g1 = "centre_grid [1, 6, 8, 9, 2, 4, 5, 7, 3]"
  let ?mid = "[ref c. row \<leftarrow> get_mid_square (grid ?b), c \<leftarrow> row, \<not> is_solved c]"
  from Sudoku_Inr [of "replicate 81 0"] obtain b where "Sudoku (replicate 81 0) = Inr b"
    by auto
  then have sb: "Sudoku (replicate 81 0) = Inr ?b" by simp
  have pre: "length (replicate 9 (0::int)) = 9" "distinct [0..<9]"
    "\<forall>j \<in> set [0..<9]. j < 9 \<and> replicate 9 (0::int) ! j = 0"
    by simp_all
  have bf: "brute_force_magic_square 9 (grid ?b) ?mid = Some (True, ?g1, [])"
    by (simp only: zero_board(1) zero_mid centre_refines(1) [OF pre] centre_search_zero
        option.map prod.case list.map)
  then have sm: "solve_magic_square 9 ?b = Some (?b\<lparr>grid := ?g1\<rparr>)"
    by (simp add: solve_magic_square_def)
  have first: "\<exists>b g1. Sudoku (replicate 81 0) = Inr b \<and>
      reduce_cells 730 True b = Some (Inr b) \<and>
      brute_force_magic_square 9 (grid b)
        [ref c. row \<leftarrow> get_mid_square (grid b), c \<leftarrow> row, \<not> is_solved c] = Some (True, g1, []) \<and>
      solve_magic_square 9 b = Some (b\<lparr>grid := g1\<rparr>) \<and>
      map (map value) (get_mid_square g1) = [[1, 6, 8], [9, 2, 4], [5, 7, 3]] \<and>
      [value (get_mid_square g1 ! i ! i). i \<leftarrow> [0..<3], is_solved (get_mid_square g1 ! i ! i)]
        = [1, 2, 3] \<and>
      \<not> line_ok [1, 2, 3]"
    by (rule exI [of _ ?b], rule exI [of _ ?g1]) (intro conjI sb zero_propagate bf sm zero_centre)
  let ?h = "projr (Sudoku hole_grid)"
  have "81 \<le> length hole_grid" by (simp add: hole_grid_def)
  from Sudoku_Inr [OF this] obtain h where "Sudoku hole_grid = Inr h" by blast
  then have sh: "Sudoku hole_grid = Inr ?h" by simp
  from hole_solve obtain h' where s: "solve 730 9 81 True ?h = Some (Inr h')"
    and "grid_to_list h' = (replicate 81 5)[40 := 1]"
    by (auto split: option.splits sum.splits)
  note this(2)
  moreover have "\<not> line_ok [5, 1, 5]" by (simp add: line_ok_def)
  ultimately have second: "\<exists>b b'. Sudoku hole_grid = Inr b \<and> solve 730 9 81 True b = Some (Inr b') \<and>
      grid_to_list b' = (replicate 81 5)[40 := 1] \<and> \<not> line_ok [5, 1, 5]"
    using sh s by (intro exI [of _ ?h] exI [of _ h'] conjI)
  from first second show ?thesis by (rule conjI)
qed

end
